theory Spec2Isabelle
  imports Main "HOL-Library.Multiset"
begin

section \<open>Shallow embedding of \<open>HashMap\<close> (src/hash\_map.h)\<close>

text \<open>
  The class keeps its entries in a \<open>std::forward_list<Element>\<close> and, per bucket, a
  \<open>std::forward_list\<close> of iterators into that entry list; each stored iterator designates
  the node \<^emph>\<open>before\<close> the entry it stands for.  Iterators are addresses of list nodes, so
  the entry list is modelled as the sequence of its nodes, each carrying its address; a node
  keeps its address for as long as it lives, whatever happens around it.  A container owns
  its nodes, so every map value carries its own.

  Dereferencing or advancing an iterator that designates no live node (and every other
  use the C++ standard leaves undefined) yields the error \<open>Undefined\<close>;
  \<open>std::out_of_range\<close> thrown by \<open>at\<close> is the error \<open>OutOfRange\<close>; a member function that
  the language rejects when it is instantiated yields \<open>IllFormed\<close>.

  Hash values and the counters are \<open>size_t\<close>.  They are modelled by \<open>nat\<close>: a table of
  \<open>2^63\<close> buckets or a list of \<open>2^64\<close> nodes does not fit in the address space, so neither
  \<open>2 * prev_size\<close> nor \<open>++size_\<close> can wrap; the wrap of \<open>--size_\<close> at zero is written out.
  The load-factor test divides two such numbers as \<open>double\<close> and compares with \<open>1.0\<close>; for
  the sizes that fit in memory the quotient exceeds \<open>1.0\<close> exactly when the size exceeds the
  number of buckets, and the test is modelled by that comparison.

  Names: an Isabelle name cannot end in an underscore, so the members \<open>hasher_\<close>,
  \<open>elements_\<close>, \<open>table_\<close> and \<open>size_\<close> are the fields \<open>hasher\<close>, \<open>elements\<close>, \<open>table\<close> and
  \<open>size_cnt\<close>; \<open>find\<close>, \<open>insert\<close>, \<open>size\<close> and \<open>empty\<close> carry the suffix \<open>_hm\<close>, since HOL
  has constants of these names; \<open>operator[]\<close> is \<open>index_op\<close> and \<open>operator=\<close> is \<open>assign\<close>.
\<close>

datatype error = OutOfRange | Undefined | IllFormed

datatype iterator = BeforeBegin | Node nat | End

type_synonym ('k, 'v) node = "nat \<times> 'k \<times> 'v"

record ('k, 'v) HashMap =
  hasher :: "'k \<Rightarrow> nat"
  elements :: "('k, 'v) node list"
  table :: "iterator list list"
  size_cnt :: nat

subsection \<open>The entry list: \<open>std::forward_list<Element>\<close>\<close>

text \<open>The nodes that follow a position; \<open>None\<close> when the position designates nothing live.\<close>

fun tail_after :: "iterator \<Rightarrow> ('k, 'v) node list \<Rightarrow> ('k, 'v) node list option" where
  "tail_after BeforeBegin xs = Some xs"
| "tail_after End xs = None"
| "tail_after (Node a) [] = None"
| "tail_after (Node a) (x # xs) = (if fst x = a then Some xs else tail_after (Node a) xs)"

text \<open>\<open>std::next(it)\<close> on an iterator of the entry list.\<close>

definition next_it :: "('k, 'v) node list \<Rightarrow> iterator \<Rightarrow> error + iterator" where
  "next_it xs it =
     (case tail_after it xs of
        None \<Rightarrow> Inl Undefined
      | Some [] \<Rightarrow> Inr End
      | Some (y # ys) \<Rightarrow> Inr (Node (fst y)))"

text \<open>\<open>*it\<close> on an iterator of the entry list.\<close>

definition deref :: "('k, 'v) node list \<Rightarrow> iterator \<Rightarrow> error + ('k \<times> 'v)" where
  "deref xs it =
     (case it of
        Node a \<Rightarrow> (case map_of xs a of None \<Rightarrow> Inl Undefined | Some e \<Rightarrow> Inr e)
      | _ \<Rightarrow> Inl Undefined)"

text \<open>An address that no live node has, for the node \<open>push_front\<close> allocates.\<close>

definition fresh_addr :: "('k, 'v) node list \<Rightarrow> nat" where
  "fresh_addr xs = Suc (fold max (map fst xs) 0)"

definition push_front :: "('k \<times> 'v) \<Rightarrow> ('k, 'v) node list \<Rightarrow> ('k, 'v) node list" where
  "push_front p xs = (fresh_addr xs, p) # xs"

text \<open>\<open>erase_after(pos)\<close>: removes the node that follows \<open>pos\<close>; undefined when there is none.\<close>

fun erase_after :: "iterator \<Rightarrow> ('k, 'v) node list \<Rightarrow> error + ('k, 'v) node list" where
  "erase_after BeforeBegin [] = Inl Undefined"
| "erase_after BeforeBegin (x # xs) = Inr xs"
| "erase_after End xs = Inl Undefined"
| "erase_after (Node a) [] = Inl Undefined"
| "erase_after (Node a) (x # xs) =
     (if fst x = a then (case xs of [] \<Rightarrow> Inl Undefined | y # ys \<Rightarrow> Inr (x # ys))
      else (case erase_after (Node a) xs of Inl e \<Rightarrow> Inl e | Inr r \<Rightarrow> Inr (x # r)))"

subsection \<open>Buckets: \<open>std::forward_list<iterator>\<close>\<close>

text \<open>
  A bucket is the list of the iterators it stores.  An iterator \<open>it\<close> into a bucket is the
  number of stored iterators before \<open>next(it)\<close>: \<open>before_begin()\<close> is \<open>0\<close>, and
  \<open>next(it)\<close> is \<open>end()\<close> exactly when that number is the length of the bucket.
\<close>

definition bucket_erase_after :: "nat \<Rightarrow> 'a list \<Rightarrow> 'a list" where
  "bucket_erase_after i ms = take i ms @ drop (Suc i) ms"

text \<open>
  The loop of \<open>find_prev_in_bucket\<close>:
  \<open>while (next(it) != end && !(next(*next(it))->first == key)) ++it\<close>.
\<close>

fun scan_bucket :: "('k, 'v) node list \<Rightarrow> iterator list \<Rightarrow> 'k \<Rightarrow> error + nat" where
  "scan_bucket xs [] key = Inr 0"
| "scan_bucket xs (m # ms) key =
     (case next_it xs m of
        Inl e \<Rightarrow> Inl e
      | Inr n \<Rightarrow>
          (case deref xs n of
             Inl e \<Rightarrow> Inl e
           | Inr p \<Rightarrow>
               if fst p = key then Inr 0
               else (case scan_bucket xs ms key of Inl e \<Rightarrow> Inl e | Inr i \<Rightarrow> Inr (Suc i))))"

definition find_prev_in_bucket :: "('k, 'v) HashMap \<Rightarrow> nat \<Rightarrow> 'k \<Rightarrow> error + nat" where
  "find_prev_in_bucket m bucket_index key =
     (if bucket_index < length (table m)
      then scan_bucket (elements m) (table m ! bucket_index) key
      else Inl Undefined)"

subsection \<open>Construction and the read-only operations\<close>

text \<open>\<open>explicit HashMap(Hash h)\<close>: no entries, one empty bucket.\<close>

definition empty_map :: "('k \<Rightarrow> nat) \<Rightarrow> ('k, 'v) HashMap" where
  "empty_map h = \<lparr>hasher = h, elements = [], table = [[]], size_cnt = 0\<rparr>"

definition begin_it :: "('k, 'v) HashMap \<Rightarrow> iterator" where
  "begin_it m = (case elements m of [] \<Rightarrow> End | x # xs \<Rightarrow> Node (fst x))"

definition hash_function :: "('k, 'v) HashMap \<Rightarrow> ('k \<Rightarrow> nat)" where
  "hash_function m = hasher m"

definition size_hm :: "('k, 'v) HashMap \<Rightarrow> nat" where
  "size_hm m = size_cnt m"

definition empty_hm :: "('k, 'v) HashMap \<Rightarrow> bool" where
  "empty_hm m = (elements m = [])"

text \<open>Full iteration from \<open>begin()\<close> to \<open>end()\<close>: the elements in list order.\<close>

definition iterate :: "('k, 'v) HashMap \<Rightarrow> ('k \<times> 'v) list" where
  "iterate m = map snd (elements m)"

definition find_hm :: "('k, 'v) HashMap \<Rightarrow> 'k \<Rightarrow> error + iterator" where
  "find_hm m key =
     (let bucket_index = hasher m key mod length (table m) in
      case find_prev_in_bucket m bucket_index key of
        Inl e \<Rightarrow> Inl e
      | Inr i \<Rightarrow>
          if i = length (table m ! bucket_index) then Inr End
          else next_it (elements m) (table m ! bucket_index ! i))"

text \<open>
  The body of \<open>at\<close> (lines 82 to 86), given together with the map it leaves behind: what
  its statements compute once the call of \<open>find_prev_in_bucket\<close> in line 83 is accepted.
\<close>

definition at_body :: "('k, 'v) HashMap \<Rightarrow> 'k \<Rightarrow> (error + 'v) \<times> ('k, 'v) HashMap" where
  "at_body m key =
     (let bucket_index = hasher m key mod length (table m) in
      case find_prev_in_bucket m bucket_index key of
        Inl e \<Rightarrow> (Inl e, m)
      | Inr i \<Rightarrow>
          if i = length (table m ! bucket_index) then (Inl OutOfRange, m)
          else (case next_it (elements m) (table m ! bucket_index ! i) of
                  Inl e \<Rightarrow> (Inl e, m)
                | Inr n \<Rightarrow>
                    (case deref (elements m) n of
                       Inl e \<Rightarrow> (Inl e, m)
                     | Inr p \<Rightarrow> (Inr (snd p), m))))"

text \<open>
  The cv-qualification of the two member functions as the class declares them:
  \<open>find_prev_in_bucket\<close> (lines 24 and 25) is not a \<open>const\<close> member, \<open>at\<close> (line 81) is.
  In a \<open>const\<close> member function \<open>*this\<close> is \<open>const\<close>, and a member function that is not
  \<open>const\<close> cannot be called on it.
\<close>

datatype qualifier = ConstMember | NonConstMember

definition find_prev_in_bucket_qualifier :: qualifier where
  "find_prev_in_bucket_qualifier = NonConstMember"

definition at_qualifier :: qualifier where
  "at_qualifier = ConstMember"

definition callable_from :: "qualifier \<Rightarrow> qualifier \<Rightarrow> bool" where
  "callable_from caller callee \<longleftrightarrow> caller = NonConstMember \<or> callee = ConstMember"

text \<open>
  \<open>at\<close> as declared.  Its call of \<open>find_prev_in_bucket\<close> is not allowed, so the member is
  ill-formed as soon as it is instantiated: a program that calls \<open>at\<close> is rejected, which is
  the result \<open>IllFormed\<close>.  (The second overload of \<open>find\<close>, line 134, is \<open>const\<close> and has
  the same call; \<open>insert\<close> calls the overload of line 126, which is \<open>find_hm\<close>.)
\<close>

definition at :: "('k, 'v) HashMap \<Rightarrow> 'k \<Rightarrow> (error + 'v) \<times> ('k, 'v) HashMap" where
  "at m key =
     (if callable_from at_qualifier find_prev_in_bucket_qualifier then at_body m key
      else (Inl IllFormed, m))"

subsection \<open>\<open>rehash\<close>, \<open>insert\<close>, \<open>erase\<close>, \<open>clear\<close>\<close>

text \<open>
  The loop of \<open>rehash\<close> over the entries still to visit; the table has been resized already.
  A remainder by zero is undefined.
\<close>

fun rehash_loop ::
  "nat \<Rightarrow> ('k, 'v) node list \<Rightarrow> ('k, 'v) HashMap \<Rightarrow> error + ('k, 'v) HashMap" where
  "rehash_loop prev_size [] m = Inr m"
| "rehash_loop prev_size (x # xs) m =
     (if prev_size = 0 \<or> table m = [] then Inl Undefined
      else
        let h = hasher m (fst (snd x));
            prev_bucket_index = h mod prev_size;
            new_bucket_index = h mod length (table m)
        in if prev_bucket_index \<noteq> new_bucket_index then
             (case find_prev_in_bucket m prev_bucket_index (fst (snd x)) of
                Inl e \<Rightarrow> Inl e
              | Inr j \<Rightarrow>
                  if j < length (table m ! prev_bucket_index) then
                    let t1 = (table m)[new_bucket_index :=
                               (table m ! prev_bucket_index ! j) # (table m ! new_bucket_index)];
                        t2 = t1[prev_bucket_index := bucket_erase_after j (t1 ! prev_bucket_index)]
                    in rehash_loop prev_size xs (m\<lparr>table := t2\<rparr>)
                  else Inl Undefined)
           else rehash_loop prev_size xs m)"

definition rehash :: "('k, 'v) HashMap \<Rightarrow> error + ('k, 'v) HashMap" where
  "rehash m =
     (let prev_size = length (table m);
          m1 = m\<lparr>table := table m @ replicate prev_size []\<rparr>
      in rehash_loop prev_size (elements m1) m1)"

definition insert_hm :: "('k, 'v) HashMap \<Rightarrow> ('k \<times> 'v) \<Rightarrow> error + ('k, 'v) HashMap" where
  "insert_hm m p =
     (case find_hm m (fst p) of
        Inl e \<Rightarrow> Inl e
      | Inr f \<Rightarrow>
          if f \<noteq> End then Inr m
          else
            (case
               (if size_cnt m > 0 then
                  (case deref (elements m) (begin_it m) of
                     Inl e \<Rightarrow> Inl e
                   | Inr first \<Rightarrow>
                       let bucket_index = hasher m (fst first) mod length (table m) in
                       (case find_prev_in_bucket m bucket_index (fst first) of
                          Inl e \<Rightarrow> Inl e
                        | Inr i \<Rightarrow>
                            if i < length (table m ! bucket_index) then
                              let m1 = m\<lparr>elements := push_front p (elements m)\<rparr> in
                              Inr (m1\<lparr>table := (table m1)[bucket_index :=
                                        (table m1 ! bucket_index)[i := begin_it m1]]\<rparr>)
                            else Inl Undefined))
                else Inr (m\<lparr>elements := push_front p (elements m)\<rparr>))
             of
               Inl e \<Rightarrow> Inl e
             | Inr m1 \<Rightarrow>
                 let m2 = m1\<lparr>size_cnt := size_cnt m1 + 1\<rparr>;
                     bucket_index = hasher m2 (fst p) mod length (table m2)
                 in if bucket_index < length (table m2) then
                      let m3 = m2\<lparr>table := (table m2)[bucket_index :=
                                    BeforeBegin # (table m2 ! bucket_index)]\<rparr>
                      in if size_cnt m3 > length (table m3) then rehash m3 else Inr m3
                    else Inl Undefined))"

definition erase :: "('k, 'v) HashMap \<Rightarrow> 'k \<Rightarrow> error + ('k, 'v) HashMap" where
  "erase m key =
     (let bucket_index = hasher m key mod length (table m) in
      case find_prev_in_bucket m bucket_index key of
        Inl e \<Rightarrow> Inl e
      | Inr i \<Rightarrow>
          if i = length (table m ! bucket_index) then Inr m
          else
            let m1 = m\<lparr>size_cnt := (if size_cnt m = 0 then 2 ^ 64 - 1 else size_cnt m - 1)\<rparr>
            in (case next_it (elements m1) (table m1 ! bucket_index ! i) of
                  Inl e \<Rightarrow> Inl e
                | Inr jt \<Rightarrow>
                    (case next_it (elements m1) jt of
                       Inl e \<Rightarrow> Inl e
                     | Inr nj \<Rightarrow>
                         (case
                            (if nj \<noteq> End then
                               (case deref (elements m1) nj of
                                  Inl e \<Rightarrow> Inl e
                                | Inr nx \<Rightarrow>
                                    let tmp_bucket_index =
                                          hasher m1 (fst nx) mod length (table m1) in
                                    (case find_prev_in_bucket m1 tmp_bucket_index (fst nx) of
                                       Inl e \<Rightarrow> Inl e
                                     | Inr k \<Rightarrow>
                                         if k < length (table m1 ! tmp_bucket_index) then
                                           Inr (m1\<lparr>table := (table m1)[tmp_bucket_index :=
                                                  (table m1 ! tmp_bucket_index)
                                                    [k := table m1 ! bucket_index ! i]]\<rparr>)
                                         else Inl Undefined))
                             else Inr m1)
                          of
                            Inl e \<Rightarrow> Inl e
                          | Inr m2 \<Rightarrow>
                              (case erase_after (table m2 ! bucket_index ! i) (elements m2) of
                                 Inl e \<Rightarrow> Inl e
                               | Inr es \<Rightarrow>
                                   Inr (m2\<lparr>elements := es,
                                          table := (table m2)[bucket_index :=
                                            bucket_erase_after i (table m2 ! bucket_index)]\<rparr>))))))"

text \<open>The loop of \<open>clear\<close>: empties the bucket of every entry.\<close>

fun clear_loop :: "('k, 'v) node list \<Rightarrow> ('k, 'v) HashMap \<Rightarrow> error + ('k, 'v) HashMap" where
  "clear_loop [] m = Inr m"
| "clear_loop (x # xs) m =
     (let bucket_index = hasher m (fst (snd x)) mod length (table m) in
      if bucket_index < length (table m)
      then clear_loop xs (m\<lparr>table := (table m)[bucket_index := []]\<rparr>)
      else Inl Undefined)"

definition clear :: "('k, 'v) HashMap \<Rightarrow> error + ('k, 'v) HashMap" where
  "clear m =
     (case clear_loop (elements m) m of
        Inl e \<Rightarrow> Inl e
      | Inr m1 \<Rightarrow> Inr (m1\<lparr>elements := [], size_cnt := 0\<rparr>))"

subsection \<open>\<open>operator[]\<close> and \<open>operator=\<close>\<close>

text \<open>
  \<open>operator[]\<close> returns a reference to the \<open>second\<close> member of a node: the model returns
  the iterator of that node, with the map the call leaves behind.  \<open>dflt\<close> is \<open>ValueType()\<close>.
\<close>

definition index_op ::
  "('k, 'v) HashMap \<Rightarrow> 'k \<Rightarrow> 'v \<Rightarrow> error + (iterator \<times> ('k, 'v) HashMap)" where
  "index_op m key dflt =
     (let bucket_index = hasher m key mod length (table m) in
      case find_prev_in_bucket m bucket_index key of
        Inl e \<Rightarrow> Inl e
      | Inr i \<Rightarrow>
          if i \<noteq> length (table m ! bucket_index) then
            (case next_it (elements m) (table m ! bucket_index ! i) of
               Inl e \<Rightarrow> Inl e
             | Inr n \<Rightarrow> (case deref (elements m) n of Inl e \<Rightarrow> Inl e | Inr p \<Rightarrow> Inr (n, m)))
          else
            (case insert_hm m (key, dflt) of
               Inl e \<Rightarrow> Inl e
             | Inr m1 \<Rightarrow>
                 (case deref (elements m1) (begin_it m1) of
                    Inl e \<Rightarrow> Inl e
                  | Inr p \<Rightarrow> Inr (begin_it m1, m1))))"

text \<open>The loop of \<open>operator=\<close>: inserts the elements of the source in iteration order.\<close>

fun insert_all :: "('k \<times> 'v) list \<Rightarrow> ('k, 'v) HashMap \<Rightarrow> error + ('k, 'v) HashMap" where
  "insert_all [] m = Inr m"
| "insert_all (p # ps) m =
     (case insert_hm m p of Inl e \<Rightarrow> Inl e | Inr m1 \<Rightarrow> insert_all ps m1)"

text \<open>The body of \<open>operator=\<close> once \<open>this\<close> and \<open>&other\<close> are known to differ.\<close>

definition copy_from :: "('k, 'v) HashMap \<Rightarrow> ('k, 'v) HashMap \<Rightarrow> error + ('k, 'v) HashMap" where
  "copy_from this other =
     (case clear this of
        Inl e \<Rightarrow> Inl e
      | Inr m \<Rightarrow> insert_all (iterate other) m)"

text \<open>
  \<open>operator=\<close> compares the addresses of its two operands, so it is modelled on a store of
  maps: \<open>this\<close> and \<open>other\<close> are the addresses of the target and of the source.  In this
  store every map is a value with its own nodes; the last part puts the objects in one
  memory, where a stored iterator may point into the list of another object.
\<close>

type_synonym ('k, 'v) store = "nat \<Rightarrow> ('k, 'v) HashMap option"

definition assign :: "('k, 'v) store \<Rightarrow> nat \<Rightarrow> nat \<Rightarrow> error + ('k, 'v) store" where
  "assign s this other =
     (if this = other then Inr s
      else
        (case (s this, s other) of
           (Some t, Some src) \<Rightarrow>
             (case copy_from t src of Inl e \<Rightarrow> Inl e | Inr t1 \<Rightarrow> Inr (s(this \<mapsto> t1)))
         | _ \<Rightarrow> Inl Undefined))"

section \<open>Map objects in one memory\<close>

text \<open>
  An iterator is an address, and an address stored in the table of one map may be that of a
  node of another map's entry list: a copy of a table member by member holds the iterators
  of the original.  To follow such iterators the map objects are put in one memory, and an
  iterator of an entry list carries the address of the object whose list it points into:
  \<open>BeforeBeginOf ob\<close> is \<open>before_begin()\<close> of the entry list of the object at \<open>ob\<close>, and
  \<open>NodeOf ob a\<close> is the node \<open>a\<close> of that list.  Reading through an iterator reads the list
  it points into, whichever object runs the member function; \<open>erase_after\<close> with a position
  of another list is undefined.  The member functions are those of the first part, with
  \<open>this\<close> the address of the object they are called on.
\<close>

datatype obj_iterator = BeforeBeginOf nat | NodeOf nat nat | EndIt

record ('k, 'v) HashMapObj =
  obj_hasher :: "'k \<Rightarrow> nat"
  obj_elements :: "('k, 'v) node list"
  obj_table :: "obj_iterator list list"
  obj_size :: nat

type_synonym ('k, 'v) memory = "nat \<Rightarrow> ('k, 'v) HashMapObj option"

fun owner :: "obj_iterator \<Rightarrow> nat option" where
  "owner (BeforeBeginOf ob) = Some ob"
| "owner (NodeOf ob a) = Some ob"
| "owner EndIt = None"

fun local_it :: "obj_iterator \<Rightarrow> iterator" where
  "local_it (BeforeBeginOf ob) = BeforeBegin"
| "local_it (NodeOf ob a) = Node a"
| "local_it EndIt = End"

fun global_it :: "nat \<Rightarrow> iterator \<Rightarrow> obj_iterator" where
  "global_it ob BeforeBegin = BeforeBeginOf ob"
| "global_it ob (Node a) = NodeOf ob a"
| "global_it ob End = EndIt"

text \<open>\<open>std::next(it)\<close> and \<open>*it\<close> on an iterator of some entry list of the memory.\<close>

definition mem_next :: "('k, 'v) memory \<Rightarrow> obj_iterator \<Rightarrow> error + obj_iterator" where
  "mem_next s it =
     (case owner it of
        None \<Rightarrow> Inl Undefined
      | Some ob \<Rightarrow>
          (case s ob of
             None \<Rightarrow> Inl Undefined
           | Some m \<Rightarrow>
               (case next_it (obj_elements m) (local_it it) of
                  Inl e \<Rightarrow> Inl e
                | Inr n \<Rightarrow> Inr (global_it ob n))))"

definition mem_deref :: "('k, 'v) memory \<Rightarrow> obj_iterator \<Rightarrow> error + ('k \<times> 'v)" where
  "mem_deref s it =
     (case owner it of
        None \<Rightarrow> Inl Undefined
      | Some ob \<Rightarrow>
          (case s ob of
             None \<Rightarrow> Inl Undefined
           | Some m \<Rightarrow> deref (obj_elements m) (local_it it)))"

text \<open>\<open>elements_.begin()\<close> and \<open>elements_.erase_after(pos)\<close> of the object at \<open>this\<close>.\<close>

definition obj_begin :: "nat \<Rightarrow> ('k, 'v) HashMapObj \<Rightarrow> obj_iterator" where
  "obj_begin this m = (case obj_elements m of [] \<Rightarrow> EndIt | x # xs \<Rightarrow> NodeOf this (fst x))"

definition obj_erase_after ::
  "nat \<Rightarrow> obj_iterator \<Rightarrow> ('k, 'v) node list \<Rightarrow> error + ('k, 'v) node list" where
  "obj_erase_after this pos xs =
     (if owner pos = Some this then erase_after (local_it pos) xs else Inl Undefined)"

fun mem_scan_bucket :: "('k, 'v) memory \<Rightarrow> obj_iterator list \<Rightarrow> 'k \<Rightarrow> error + nat" where
  "mem_scan_bucket s [] key = Inr 0"
| "mem_scan_bucket s (m # ms) key =
     (case mem_next s m of
        Inl e \<Rightarrow> Inl e
      | Inr n \<Rightarrow>
          (case mem_deref s n of
             Inl e \<Rightarrow> Inl e
           | Inr p \<Rightarrow>
               if fst p = key then Inr 0
               else (case mem_scan_bucket s ms key of Inl e \<Rightarrow> Inl e | Inr i \<Rightarrow> Inr (Suc i))))"

definition obj_find_prev_in_bucket ::
  "('k, 'v) memory \<Rightarrow> nat \<Rightarrow> nat \<Rightarrow> 'k \<Rightarrow> error + nat" where
  "obj_find_prev_in_bucket s this bucket_index key =
     (case s this of
        None \<Rightarrow> Inl Undefined
      | Some m \<Rightarrow>
          if bucket_index < length (obj_table m)
          then mem_scan_bucket s (obj_table m ! bucket_index) key
          else Inl Undefined)"

definition obj_find :: "('k, 'v) memory \<Rightarrow> nat \<Rightarrow> 'k \<Rightarrow> error + obj_iterator" where
  "obj_find s this key =
     (case s this of
        None \<Rightarrow> Inl Undefined
      | Some m \<Rightarrow>
          let bucket_index = obj_hasher m key mod length (obj_table m) in
          (case obj_find_prev_in_bucket s this bucket_index key of
             Inl e \<Rightarrow> Inl e
           | Inr i \<Rightarrow>
               if i = length (obj_table m ! bucket_index) then Inr EndIt
               else mem_next s (obj_table m ! bucket_index ! i)))"

fun obj_rehash_loop ::
  "nat \<Rightarrow> ('k, 'v) node list \<Rightarrow> ('k, 'v) memory \<Rightarrow> nat \<Rightarrow> error + ('k, 'v) memory" where
  "obj_rehash_loop prev_size [] s this = Inr s"
| "obj_rehash_loop prev_size (x # xs) s this =
     (case s this of
        None \<Rightarrow> Inl Undefined
      | Some m \<Rightarrow>
          if prev_size = 0 \<or> obj_table m = [] then Inl Undefined
          else
            let h = obj_hasher m (fst (snd x));
                prev_bucket_index = h mod prev_size;
                new_bucket_index = h mod length (obj_table m)
            in if prev_bucket_index \<noteq> new_bucket_index then
                 (case obj_find_prev_in_bucket s this prev_bucket_index (fst (snd x)) of
                    Inl e \<Rightarrow> Inl e
                  | Inr j \<Rightarrow>
                      if j < length (obj_table m ! prev_bucket_index) then
                        let t1 = (obj_table m)[new_bucket_index :=
                                   (obj_table m ! prev_bucket_index ! j) #
                                   (obj_table m ! new_bucket_index)];
                            t2 = t1[prev_bucket_index :=
                                   bucket_erase_after j (t1 ! prev_bucket_index)]
                        in obj_rehash_loop prev_size xs (s(this \<mapsto> m\<lparr>obj_table := t2\<rparr>)) this
                      else Inl Undefined)
               else obj_rehash_loop prev_size xs s this)"

definition obj_rehash :: "('k, 'v) memory \<Rightarrow> nat \<Rightarrow> error + ('k, 'v) memory" where
  "obj_rehash s this =
     (case s this of
        None \<Rightarrow> Inl Undefined
      | Some m \<Rightarrow>
          let prev_size = length (obj_table m);
              m1 = m\<lparr>obj_table := obj_table m @ replicate prev_size []\<rparr>
          in obj_rehash_loop prev_size (obj_elements m1) (s(this \<mapsto> m1)) this)"

definition obj_insert ::
  "('k, 'v) memory \<Rightarrow> nat \<Rightarrow> ('k \<times> 'v) \<Rightarrow> error + ('k, 'v) memory" where
  "obj_insert s this p =
     (case s this of
        None \<Rightarrow> Inl Undefined
      | Some m \<Rightarrow>
          (case obj_find s this (fst p) of
             Inl e \<Rightarrow> Inl e
           | Inr f \<Rightarrow>
               if f \<noteq> EndIt then Inr s
               else
                 (case
                    (if obj_size m > 0 then
                       (case mem_deref s (obj_begin this m) of
                          Inl e \<Rightarrow> Inl e
                        | Inr first \<Rightarrow>
                            let bucket_index = obj_hasher m (fst first) mod length (obj_table m) in
                            (case obj_find_prev_in_bucket s this bucket_index (fst first) of
                               Inl e \<Rightarrow> Inl e
                             | Inr i \<Rightarrow>
                                 if i < length (obj_table m ! bucket_index) then
                                   let m1 = m\<lparr>obj_elements := push_front p (obj_elements m)\<rparr> in
                                   Inr (m1\<lparr>obj_table := (obj_table m1)[bucket_index :=
                                          (obj_table m1 ! bucket_index)[i := obj_begin this m1]]\<rparr>)
                                 else Inl Undefined))
                     else Inr (m\<lparr>obj_elements := push_front p (obj_elements m)\<rparr>))
                  of
                    Inl e \<Rightarrow> Inl e
                  | Inr m1 \<Rightarrow>
                      let m2 = m1\<lparr>obj_size := obj_size m1 + 1\<rparr>;
                          bucket_index = obj_hasher m2 (fst p) mod length (obj_table m2)
                      in if bucket_index < length (obj_table m2) then
                           let m3 = m2\<lparr>obj_table := (obj_table m2)[bucket_index :=
                                         BeforeBeginOf this # (obj_table m2 ! bucket_index)]\<rparr>
                           in if obj_size m3 > length (obj_table m3)
                              then obj_rehash (s(this \<mapsto> m3)) this
                              else Inr (s(this \<mapsto> m3))
                         else Inl Undefined)))"

definition obj_erase :: "('k, 'v) memory \<Rightarrow> nat \<Rightarrow> 'k \<Rightarrow> error + ('k, 'v) memory" where
  "obj_erase s this key =
     (case s this of
        None \<Rightarrow> Inl Undefined
      | Some m \<Rightarrow>
          let bucket_index = obj_hasher m key mod length (obj_table m) in
          (case obj_find_prev_in_bucket s this bucket_index key of
             Inl e \<Rightarrow> Inl e
           | Inr i \<Rightarrow>
               if i = length (obj_table m ! bucket_index) then Inr s
               else
                 let m1 = m\<lparr>obj_size := (if obj_size m = 0 then 2 ^ 64 - 1 else obj_size m - 1)\<rparr>;
                     s1 = s(this \<mapsto> m1)
                 in (case mem_next s1 (obj_table m1 ! bucket_index ! i) of
                       Inl e \<Rightarrow> Inl e
                     | Inr jt \<Rightarrow>
                         (case mem_next s1 jt of
                            Inl e \<Rightarrow> Inl e
                          | Inr nj \<Rightarrow>
                              (case
                                 (if nj \<noteq> EndIt then
                                    (case mem_deref s1 nj of
                                       Inl e \<Rightarrow> Inl e
                                     | Inr nx \<Rightarrow>
                                         let tmp_bucket_index =
                                               obj_hasher m1 (fst nx) mod length (obj_table m1) in
                                         (case obj_find_prev_in_bucket s1 this tmp_bucket_index
                                                 (fst nx) of
                                            Inl e \<Rightarrow> Inl e
                                          | Inr k \<Rightarrow>
                                              if k < length (obj_table m1 ! tmp_bucket_index) then
                                                Inr (m1\<lparr>obj_table := (obj_table m1)[tmp_bucket_index :=
                                                       (obj_table m1 ! tmp_bucket_index)
                                                         [k := obj_table m1 ! bucket_index ! i]]\<rparr>)
                                              else Inl Undefined))
                                  else Inr m1)
                               of
                                 Inl e \<Rightarrow> Inl e
                               | Inr m2 \<Rightarrow>
                                   (case obj_erase_after this (obj_table m2 ! bucket_index ! i)
                                           (obj_elements m2) of
                                      Inl e \<Rightarrow> Inl e
                                    | Inr es \<Rightarrow>
                                        Inr (s(this \<mapsto> m2\<lparr>obj_elements := es,
                                               obj_table := (obj_table m2)[bucket_index :=
                                                 bucket_erase_after i
                                                   (obj_table m2 ! bucket_index)]\<rparr>))))))))"

fun obj_clear_loop ::
  "('k, 'v) node list \<Rightarrow> ('k, 'v) memory \<Rightarrow> nat \<Rightarrow> error + ('k, 'v) memory" where
  "obj_clear_loop [] s this = Inr s"
| "obj_clear_loop (x # xs) s this =
     (case s this of
        None \<Rightarrow> Inl Undefined
      | Some m \<Rightarrow>
          let bucket_index = obj_hasher m (fst (snd x)) mod length (obj_table m) in
          if bucket_index < length (obj_table m)
          then obj_clear_loop xs (s(this \<mapsto> m\<lparr>obj_table := (obj_table m)[bucket_index := []]\<rparr>)) this
          else Inl Undefined)"

definition obj_clear :: "('k, 'v) memory \<Rightarrow> nat \<Rightarrow> error + ('k, 'v) memory" where
  "obj_clear s this =
     (case s this of
        None \<Rightarrow> Inl Undefined
      | Some m \<Rightarrow>
          (case obj_clear_loop (obj_elements m) s this of
             Inl e \<Rightarrow> Inl e
           | Inr s1 \<Rightarrow>
               (case s1 this of
                  None \<Rightarrow> Inl Undefined
                | Some m1 \<Rightarrow> Inr (s1(this \<mapsto> m1\<lparr>obj_elements := [], obj_size := 0\<rparr>)))))"

text \<open>
  The loop of \<open>operator=\<close>, \<open>for (auto it = other.begin(); it != other.end(); ++it)
  insert(*it)\<close>: the iterator walks the list of \<open>other\<close> in the memory as the calls of
  \<open>insert\<close> leave it.  The result is \<open>None\<close> when the loop does not end.
\<close>

partial_function (option) obj_assign_loop ::
  "('k, 'v) memory \<Rightarrow> nat \<Rightarrow> obj_iterator \<Rightarrow> (error + ('k, 'v) memory) option" where
  "obj_assign_loop s this it =
     (if it = EndIt then Some (Inr s)
      else
        (case mem_deref s it of
           Inl e \<Rightarrow> Some (Inl e)
         | Inr p \<Rightarrow>
             (case obj_insert s this p of
                Inl e \<Rightarrow> Some (Inl e)
              | Inr s1 \<Rightarrow>
                  (case mem_next s1 it of
                     Inl e \<Rightarrow> Some (Inl e)
                   | Inr it1 \<Rightarrow> obj_assign_loop s1 this it1))))"

declare obj_assign_loop.simps [code]

definition obj_assign ::
  "('k, 'v) memory \<Rightarrow> nat \<Rightarrow> nat \<Rightarrow> (error + ('k, 'v) memory) option" where
  "obj_assign s this other =
     (if this = other then Some (Inr s)
      else
        (case obj_clear s this of
           Inl e \<Rightarrow> Some (Inl e)
         | Inr s1 \<Rightarrow>
             (case s1 other of
                None \<Rightarrow> Some (Inl Undefined)
              | Some src \<Rightarrow> obj_assign_loop s1 this (obj_begin other src))))"

section \<open>Invariants and reachable states\<close>

text \<open>
  The entry list as pairs of a position and the node that follows it: the first node follows
  \<open>before_begin()\<close>, every other node follows the node before it.
\<close>

fun links :: "iterator \<Rightarrow> ('k, 'v) node list \<Rightarrow> (iterator \<times> ('k, 'v) node) list" where
  "links p [] = []"
| "links p (x # xs) = (p, x) # links (Node (fst x)) xs"

text \<open>
  \<open>placed loc xs t\<close>: bucket \<open>b\<close> of the table \<open>t\<close> holds, as a multiset, exactly the
  predecessor positions of the entries \<open>x\<close> of \<open>xs\<close> with \<open>loc x = b\<close>.  During \<open>rehash\<close> the
  function \<open>loc\<close> is the old bucket index for the entries not yet visited and the new one
  for the others.
\<close>

definition placed :: "(('k, 'v) node \<Rightarrow> nat) \<Rightarrow> ('k, 'v) node list \<Rightarrow> iterator list list \<Rightarrow> bool" where
  "placed loc xs t \<longleftrightarrow>
     (\<forall>b\<in>set [0..<length t].
        mset (t ! b) = mset (map fst (filter (\<lambda>l. loc (snd l) = b) (links BeforeBegin xs))))"

text \<open>The bucket index \<open>hasher_(key) % table_.size()\<close> of a node.\<close>

definition bucket_of :: "('k, 'v) HashMap \<Rightarrow> ('k, 'v) node \<Rightarrow> nat" where
  "bucket_of m x = hasher m (fst (snd x)) mod length (table m)"

text \<open>
  The invariant of the class: node addresses are distinct (the entry list is a well-formed
  store), keys are distinct, \<open>size_\<close> is the number of entries, the table is not empty, and
  every entry has its predecessor position stored in the bucket of its key and nowhere else.
\<close>

definition invar :: "('k, 'v) HashMap \<Rightarrow> bool" where
  "invar m \<longleftrightarrow>
     distinct (map fst (elements m)) \<and>
     distinct (map (fst \<circ> snd) (elements m)) \<and>
     size_cnt m = length (elements m) \<and>
     table m \<noteq> [] \<and>
     placed (bucket_of m) (elements m) (table m)"

text \<open>The position before the node that follows the nodes \<open>us\<close>, when \<open>q\<close> is the position before \<open>us\<close>.\<close>

definition last_pos :: "iterator \<Rightarrow> ('k, 'v) node list \<Rightarrow> iterator" where
  "last_pos q us = (if us = [] then q else Node (fst (last us)))"

text \<open>The load-factor bound and the doubling sequence of bucket counts.\<close>

definition load_ok :: "('k, 'v) HashMap \<Rightarrow> bool" where
  "load_ok m \<longleftrightarrow> size_cnt m \<le> length (table m) \<and> (\<exists>j. length (table m) = 2 ^ j)"

text \<open>
  The maps that the public operations produce from an empty map.  The constructors from a
  range and from an initializer list are the empty map followed by calls of \<open>insert\<close>; the
  source of a copy-assignment is a reachable map itself.
\<close>

inductive reachable :: "('k, 'v) HashMap \<Rightarrow> bool" where
  r_empty: "reachable (empty_map h)"
| r_insert: "reachable m \<Longrightarrow> insert_hm m p = Inr m' \<Longrightarrow> reachable m'"
| r_erase: "reachable m \<Longrightarrow> erase m k = Inr m' \<Longrightarrow> reachable m'"
| r_index: "reachable m \<Longrightarrow> index_op m k d = Inr (it, m') \<Longrightarrow> reachable m'"
| r_clear: "reachable m \<Longrightarrow> clear m = Inr m' \<Longrightarrow> reachable m'"
| r_rehash: "reachable m \<Longrightarrow> rehash m = Inr m' \<Longrightarrow> reachable m'"
| r_assign: "reachable m \<Longrightarrow> reachable src \<Longrightarrow> copy_from m src = Inr m' \<Longrightarrow> reachable m'"

text \<open>One call of a public mutating operation takes the map \<open>m\<close> to the map \<open>m'\<close>.\<close>

definition mutated :: "('k, 'v) HashMap \<Rightarrow> ('k, 'v) HashMap \<Rightarrow> bool" where
  "mutated m m' \<longleftrightarrow>
     (\<exists>p. insert_hm m p = Inr m') \<or>
     (\<exists>k. erase m k = Inr m') \<or>
     (\<exists>k d it. index_op m k d = Inr (it, m')) \<or>
     clear m = Inr m' \<or>
     rehash m = Inr m' \<or>
     (\<exists>src. reachable src \<and> copy_from m src = Inr m')"

text \<open>
  Concrete maps with the identity as hash function: \<open>small_map\<close> is an empty map after
  \<open>insert (1, 10)\<close> and \<open>insert (2, 20)\<close>, and \<open>example_map\<close> is \<open>small_map\<close> after
  \<open>insert (3, 30)\<close>, which doubles the table.
\<close>

definition example_map :: "(nat, nat) HashMap" where
  "example_map = \<lparr>hasher = (\<lambda>k. k), elements = [(3, 3, 30), (2, 2, 20), (1, 1, 10)],
     table = [[], [Node 2], [Node 3], [BeforeBegin]], size_cnt = 3\<rparr>"

definition small_map :: "(nat, nat) HashMap" where
  "small_map = \<lparr>hasher = (\<lambda>k. k), elements = [(2, 2, 20), (1, 1, 10)],
     table = [[BeforeBegin], [Node 2]], size_cnt = 2\<rparr>"

text \<open>A map with another hash function, and a store with two map objects.\<close>

definition other_map :: "(nat, nat) HashMap" where
  "other_map = \<lparr>hasher = (\<lambda>k. k + 1), elements = [(1, 5, 50)], table = [[BeforeBegin]],
     size_cnt = 1\<rparr>"

definition example_store :: "(nat, nat) store" where
  "example_store = (\<lambda>_. None)(0 \<mapsto> example_map, 1 \<mapsto> other_map)"

text \<open>
  A map value seen as the object at \<open>ob\<close> whose stored iterators all point into its own
  list, and back.
\<close>

definition globalize :: "nat \<Rightarrow> ('k, 'v) HashMap \<Rightarrow> ('k, 'v) HashMapObj" where
  "globalize ob m =
     \<lparr>obj_hasher = hasher m, obj_elements = elements m,
      obj_table = map (map (global_it ob)) (table m), obj_size = size_cnt m\<rparr>"

definition localize :: "('k, 'v) HashMapObj \<Rightarrow> ('k, 'v) HashMap" where
  "localize g =
     \<lparr>hasher = obj_hasher g, elements = obj_elements g,
      table = map (map local_it) (obj_table g), size_cnt = obj_size g\<rparr>"

text \<open>Every iterator stored in the table of the object points into the list of the object at \<open>ob\<close>.\<close>

definition owned :: "nat \<Rightarrow> ('k, 'v) HashMapObj \<Rightarrow> bool" where
  "owned ob g \<longleftrightarrow> (\<forall>ms\<in>set (obj_table g). \<forall>it\<in>set ms. owner it = Some ob)"

text \<open>
  The invariant of a map object at \<open>ob\<close>: it shares no stored iterator with another object,
  and seen alone it satisfies the invariant of the class.
\<close>

definition obj_invar :: "nat \<Rightarrow> ('k, 'v) HashMapObj \<Rightarrow> bool" where
  "obj_invar ob g \<longleftrightarrow> owned ob g \<and> invar (localize g)"

text \<open>The memory after a member function of the object at \<open>this\<close> has turned it into \<open>m'\<close>.\<close>

definition lift_map ::
  "('k, 'v) memory \<Rightarrow> nat \<Rightarrow> error + ('k, 'v) HashMap \<Rightarrow> error + ('k, 'v) memory" where
  "lift_map s this r =
     (case r of Inl e \<Rightarrow> Inl e | Inr m' \<Rightarrow> Inr (s(this \<mapsto> globalize this m')))"

text \<open>
  The two halves of \<open>insert\<close>, for the proofs: the first rewrites the stored iterator of the
  old first entry and pushes the new node, the second counts, stores \<open>before_begin()\<close> and
  calls \<open>rehash\<close>.
\<close>

definition insert_front :: "('k, 'v) HashMap \<Rightarrow> ('k \<times> 'v) \<Rightarrow> error + ('k, 'v) HashMap" where
  "insert_front m p =
     (if size_cnt m > 0 then
        (case deref (elements m) (begin_it m) of
           Inl e \<Rightarrow> Inl e
         | Inr first \<Rightarrow>
             let bucket_index = hasher m (fst first) mod length (table m) in
             (case find_prev_in_bucket m bucket_index (fst first) of
                Inl e \<Rightarrow> Inl e
              | Inr i \<Rightarrow>
                  if i < length (table m ! bucket_index) then
                    let m1 = m\<lparr>elements := push_front p (elements m)\<rparr> in
                    Inr (m1\<lparr>table := (table m1)[bucket_index :=
                              (table m1 ! bucket_index)[i := begin_it m1]]\<rparr>)
                  else Inl Undefined))
      else Inr (m\<lparr>elements := push_front p (elements m)\<rparr>))"

definition insert_back :: "('k, 'v) HashMap \<Rightarrow> ('k \<times> 'v) \<Rightarrow> error + ('k, 'v) HashMap" where
  "insert_back m1 p =
     (let m2 = m1\<lparr>size_cnt := size_cnt m1 + 1\<rparr>;
          bucket_index = hasher m2 (fst p) mod length (table m2)
      in if bucket_index < length (table m2) then
           let m3 = m2\<lparr>table := (table m2)[bucket_index :=
                         BeforeBegin # (table m2 ! bucket_index)]\<rparr>
           in if size_cnt m3 > length (table m3) then rehash m3 else Inr m3
         else Inl Undefined)"

definition obj_insert_front ::
  "('k, 'v) memory \<Rightarrow> nat \<Rightarrow> ('k, 'v) HashMapObj \<Rightarrow> ('k \<times> 'v) \<Rightarrow> error + ('k, 'v) HashMapObj" where
  "obj_insert_front s this m p =
     (if obj_size m > 0 then
        (case mem_deref s (obj_begin this m) of
           Inl e \<Rightarrow> Inl e
         | Inr first \<Rightarrow>
             let bucket_index = obj_hasher m (fst first) mod length (obj_table m) in
             (case obj_find_prev_in_bucket s this bucket_index (fst first) of
                Inl e \<Rightarrow> Inl e
              | Inr i \<Rightarrow>
                  if i < length (obj_table m ! bucket_index) then
                    let m1 = m\<lparr>obj_elements := push_front p (obj_elements m)\<rparr> in
                    Inr (m1\<lparr>obj_table := (obj_table m1)[bucket_index :=
                           (obj_table m1 ! bucket_index)[i := obj_begin this m1]]\<rparr>)
                  else Inl Undefined))
      else Inr (m\<lparr>obj_elements := push_front p (obj_elements m)\<rparr>))"

definition obj_insert_back ::
  "('k, 'v) memory \<Rightarrow> nat \<Rightarrow> ('k, 'v) HashMapObj \<Rightarrow> ('k \<times> 'v) \<Rightarrow> error + ('k, 'v) memory" where
  "obj_insert_back s this m1 p =
     (let m2 = m1\<lparr>obj_size := obj_size m1 + 1\<rparr>;
          bucket_index = obj_hasher m2 (fst p) mod length (obj_table m2)
      in if bucket_index < length (obj_table m2) then
           let m3 = m2\<lparr>obj_table := (obj_table m2)[bucket_index :=
                         BeforeBeginOf this # (obj_table m2 ! bucket_index)]\<rparr>
           in if obj_size m3 > length (obj_table m3)
              then obj_rehash (s(this \<mapsto> m3)) this
              else Inr (s(this \<mapsto> m3))
         else Inl Undefined)"

text \<open>
  The two last steps of \<open>erase\<close>, for the proofs: the first rewrites the stored iterator of the
  entry behind the erased one, the second removes the node and its stored iterator.
\<close>

definition erase_relink ::
  "('k, 'v) HashMap \<Rightarrow> nat \<Rightarrow> nat \<Rightarrow> iterator \<Rightarrow> error + ('k, 'v) HashMap" where
  "erase_relink m1 bucket_index i nj =
     (if nj \<noteq> End then
        (case deref (elements m1) nj of
           Inl e \<Rightarrow> Inl e
         | Inr nx \<Rightarrow>
             let tmp_bucket_index = hasher m1 (fst nx) mod length (table m1) in
             (case find_prev_in_bucket m1 tmp_bucket_index (fst nx) of
                Inl e \<Rightarrow> Inl e
              | Inr k \<Rightarrow>
                  if k < length (table m1 ! tmp_bucket_index) then
                    Inr (m1\<lparr>table := (table m1)[tmp_bucket_index :=
                           (table m1 ! tmp_bucket_index)
                             [k := table m1 ! bucket_index ! i]]\<rparr>)
                  else Inl Undefined))
      else Inr m1)"

definition erase_unlink :: "('k, 'v) HashMap \<Rightarrow> nat \<Rightarrow> nat \<Rightarrow> error + ('k, 'v) HashMap" where
  "erase_unlink m2 bucket_index i =
     (case erase_after (table m2 ! bucket_index ! i) (elements m2) of
        Inl e \<Rightarrow> Inl e
      | Inr es \<Rightarrow>
          Inr (m2\<lparr>elements := es,
                 table := (table m2)[bucket_index :=
                   bucket_erase_after i (table m2 ! bucket_index)]\<rparr>))"

definition obj_erase_relink ::
  "('k, 'v) memory \<Rightarrow> nat \<Rightarrow> ('k, 'v) HashMapObj \<Rightarrow> nat \<Rightarrow> nat \<Rightarrow> obj_iterator
    \<Rightarrow> error + ('k, 'v) HashMapObj" where
  "obj_erase_relink s1 this m1 bucket_index i nj =
     (if nj \<noteq> EndIt then
        (case mem_deref s1 nj of
           Inl e \<Rightarrow> Inl e
         | Inr nx \<Rightarrow>
             let tmp_bucket_index = obj_hasher m1 (fst nx) mod length (obj_table m1) in
             (case obj_find_prev_in_bucket s1 this tmp_bucket_index (fst nx) of
                Inl e \<Rightarrow> Inl e
              | Inr k \<Rightarrow>
                  if k < length (obj_table m1 ! tmp_bucket_index) then
                    Inr (m1\<lparr>obj_table := (obj_table m1)[tmp_bucket_index :=
                           (obj_table m1 ! tmp_bucket_index)
                             [k := obj_table m1 ! bucket_index ! i]]\<rparr>)
                  else Inl Undefined))
      else Inr m1)"

definition obj_erase_unlink ::
  "('k, 'v) memory \<Rightarrow> nat \<Rightarrow> ('k, 'v) HashMapObj \<Rightarrow> nat \<Rightarrow> nat \<Rightarrow> error + ('k, 'v) memory" where
  "obj_erase_unlink s this m2 bucket_index i =
     (case obj_erase_after this (obj_table m2 ! bucket_index ! i) (obj_elements m2) of
        Inl e \<Rightarrow> Inl e
      | Inr es \<Rightarrow>
          Inr (s(this \<mapsto> m2\<lparr>obj_elements := es,
                 obj_table := (obj_table m2)[bucket_index :=
                   bucket_erase_after i (obj_table m2 ! bucket_index)]\<rparr>)))"

text \<open>
  A memory with two map objects: \<open>example_map\<close> at address 0 and \<open>other_map\<close>, which has
  another hash function, at address 1.
\<close>

definition example_memory :: "(nat, nat) memory" where
  "example_memory = (\<lambda>_. None)(0 \<mapsto> globalize 0 example_map, 1 \<mapsto> globalize 1 other_map)"

section \<open>Properties\<close>

subsection \<open>Positions and their successors\<close>

lemma links_snd [simp]: "map snd (links p xs) = xs"
  by (induction xs arbitrary: p) auto

lemma links_length [simp]: "length (links p xs) = length xs"
  by (induction xs arbitrary: p) auto

lemma links_fst_subset: "(q, x) \<in> set (links p xs) \<Longrightarrow> q = p \<or> q \<in> Node ` fst ` set xs"
  by (induction xs arbitrary: p) auto

lemma links_snd_mem: "(q, x) \<in> set (links p xs) \<Longrightarrow> x \<in> set xs"
  by (induction xs arbitrary: p) auto

lemma links_mem_ex: "x \<in> set xs \<Longrightarrow> \<exists>q. (q, x) \<in> set (links p xs)"
  by (induction xs arbitrary: p) auto

lemma links_distinct_fst:
  "distinct (map fst xs) \<Longrightarrow> p \<notin> Node ` fst ` set xs \<Longrightarrow> distinct (map fst (links p xs))"
proof (induction xs arbitrary: p)
  case Nil
  then show ?case by simp
next
  case (Cons x xs)
  have "p \<notin> fst ` set (links (Node (fst x)) xs)"
  proof
    assume "p \<in> fst ` set (links (Node (fst x)) xs)"
    then obtain y where "(p, y) \<in> set (links (Node (fst x)) xs)" by auto
    from links_fst_subset[OF this] Cons.prems show False by auto
  qed
  moreover have "distinct (map fst (links (Node (fst x)) xs))"
    using Cons by (intro Cons.IH) auto
  ultimately show ?case by simp
qed

lemma links_append:
  "links p (us @ vs) = links p us @ links (if us = [] then p else Node (fst (last us))) vs"
  by (induction us arbitrary: p) auto

lemma links_head: "(p, x) \<in> set (links p xs) \<Longrightarrow> p \<notin> Node ` fst ` set xs \<Longrightarrow> \<exists>vs. xs = x # vs"
  by (cases xs) (auto dest: links_fst_subset)

lemma links_tail_after:
  "distinct (map fst xs) \<Longrightarrow> (q, x) \<in> set (links p xs) \<Longrightarrow> q \<noteq> p
    \<Longrightarrow> \<exists>vs. tail_after q xs = Some (x # vs)"
proof (induction xs arbitrary: p)
  case Nil
  then show ?case by simp
next
  case (Cons y ys)
  from Cons.prems have mem: "(q, x) \<in> set (links (Node (fst y)) ys)" by auto
  show ?case
  proof (cases "q = Node (fst y)")
    case True
    with mem Cons.prems(1) links_head[where x=x and xs=ys and p="Node (fst y)"] show ?thesis by auto
  next
    case False
    from Cons.IH[OF _ mem False] Cons.prems(1) obtain vs where "tail_after q ys = Some (x # vs)"
      by auto
    moreover from links_fst_subset[OF mem] False obtain a where "q = Node a" "a \<noteq> fst y"
      by auto
    ultimately show ?thesis by auto
  qed
qed

lemma links_next_deref:
  assumes "distinct (map fst xs)" "(q, x) \<in> set (links BeforeBegin xs)"
  shows "next_it xs q = Inr (Node (fst x))" "deref xs (Node (fst x)) = Inr (snd x)"
proof -
  show "next_it xs q = Inr (Node (fst x))"
  proof (cases "q = BeforeBegin")
    case True
    have "BeforeBegin \<notin> Node ` fst ` set xs" by auto
    with True assms(2) links_head[where x=x and xs=xs and p=BeforeBegin]
    obtain vs where "xs = x # vs" by blast
    with True show ?thesis by (simp add: next_it_def)
  next
    case False
    from links_tail_after[OF assms(1,2) False] show ?thesis by (auto simp: next_it_def)
  qed
  from links_snd_mem[OF assms(2)] have "(fst x, snd x) \<in> set xs" by simp
  with assms(1) have "map_of xs (fst x) = Some (snd x)"
    by (simp only: map_of_eq_Some_iff)
  then show "deref xs (Node (fst x)) = Inr (snd x)" by (simp add: deref_def)
qed

subsection \<open>Searching a bucket\<close>

lemma links_fun:
  "distinct (map fst xs) \<Longrightarrow> (q, x) \<in> set (links BeforeBegin xs)
    \<Longrightarrow> (q, y) \<in> set (links BeforeBegin xs) \<Longrightarrow> x = y"
  using links_distinct_fst[of xs BeforeBegin] by (auto dest: eq_key_imp_eq_value)

lemma links_inj:
  assumes "distinct (map fst xs)" "(p, x) \<in> set (links q xs)" "(p', x) \<in> set (links q xs)"
  shows "p = p'"
proof -
  from assms(1) have "distinct xs" by (rule distinct_map[THEN iffD1, THEN conjunct1])
  then have "inj_on snd (set (links q xs))"
    using distinct_map[of snd "links q xs"] by simp
  from inj_onD[OF this _ assms(2,3)] show ?thesis by simp
qed

lemma key_unique:
  "distinct (map (fst \<circ> snd) xs) \<Longrightarrow> x \<in> set xs \<Longrightarrow> y \<in> set xs
    \<Longrightarrow> fst (snd x) = fst (snd y) \<Longrightarrow> x = y"
  using inj_onD[of "fst \<circ> snd" "set xs" x y] by (simp add: distinct_map)

lemma scan_found:
  assumes "distinct (map fst xs)" "distinct (map (fst \<circ> snd) xs)"
    and "\<forall>q\<in>set ms. \<exists>y. (q, y) \<in> set (links BeforeBegin xs)"
    and "(p, x) \<in> set (links BeforeBegin xs)" "p \<in> set ms"
  shows "\<exists>i<length ms. scan_bucket xs ms (fst (snd x)) = Inr i \<and> ms ! i = p"
  using assms(3,5)
proof (induction ms)
  case Nil
  then show ?case by simp
next
  case (Cons m ms)
  from Cons.prems obtain y where y: "(m, y) \<in> set (links BeforeBegin xs)" by auto
  note nd = links_next_deref[OF assms(1) y]
  show ?case
  proof (cases "fst (snd y) = fst (snd x)")
    case True
    with key_unique[OF assms(2) links_snd_mem[OF y] links_snd_mem[OF assms(4)]] have "y = x" by simp
    with links_inj[OF assms(1) _ assms(4)] y have "m = p" by simp
    with nd True show ?thesis by simp
  next
    case False
    then have "m \<noteq> p" using links_fun[OF assms(1) y, of x] assms(4) by auto
    with Cons.prems have "p \<in> set ms" by simp
    with Cons.IH Cons.prems obtain i where "i < length ms" "scan_bucket xs ms (fst (snd x)) = Inr i" "ms ! i = p"
      by auto
    with nd False show ?thesis by auto
  qed
qed

lemma scan_absent:
  assumes "distinct (map fst xs)"
    and "\<forall>q\<in>set ms. \<exists>y. (q, y) \<in> set (links BeforeBegin xs) \<and> fst (snd y) \<noteq> k"
  shows "scan_bucket xs ms k = Inr (length ms)"
  using assms(2)
proof (induction ms)
  case Nil
  then show ?case by simp
next
  case (Cons m ms)
  from Cons.prems obtain y where y: "(m, y) \<in> set (links BeforeBegin xs)" "fst (snd y) \<noteq> k" by auto
  note nd = links_next_deref[OF assms(1) y(1)]
  with y(2) Cons show ?case by simp
qed

lemma placedD:
  "placed loc xs t \<Longrightarrow> b < length t \<Longrightarrow>
     mset (t ! b) = mset (map fst (filter (\<lambda>l. loc (snd l) = b) (links BeforeBegin xs)))"
  by (simp add: placed_def)

lemma placed_set:
  assumes "placed loc xs t" "b < length t"
  shows "set (t ! b) = fst ` {l \<in> set (links BeforeBegin xs). loc (snd l) = b}"
proof -
  from assms have "set_mset (mset (t ! b))
      = set_mset (mset (map fst (filter (\<lambda>l. loc (snd l) = b) (links BeforeBegin xs))))"
    by (simp only: placedD)
  then show ?thesis by simp
qed

lemma placed_found:
  assumes "distinct (map fst xs)" "distinct (map (fst \<circ> snd) xs)" "placed loc xs t"
    and "(p, x) \<in> set (links BeforeBegin xs)" "loc x < length t"
  shows "\<exists>i<length (t ! loc x). scan_bucket xs (t ! loc x) (fst (snd x)) = Inr i \<and> t ! loc x ! i = p"
proof (rule scan_found[OF assms(1,2) _ assms(4)])
  from placed_set[OF assms(3,5)]
  show "\<forall>q\<in>set (t ! loc x). \<exists>y. (q, y) \<in> set (links BeforeBegin xs)"
    by auto
  from placed_set[OF assms(3,5)] assms(4) show "p \<in> set (t ! loc x)"
    by force
qed

lemma placed_absent:
  assumes "distinct (map fst xs)" "placed loc xs t" "b < length t" "k \<notin> set (map (fst \<circ> snd) xs)"
  shows "scan_bucket xs (t ! b) k = Inr (length (t ! b))"
proof (rule scan_absent[OF assms(1)], rule ballI)
  fix q assume "q \<in> set (t ! b)"
  with placed_set[OF assms(2,3)] obtain y where y: "(q, y) \<in> set (links BeforeBegin xs)" by auto
  from links_snd_mem[OF this] assms(4) have "fst (snd y) \<noteq> k" by auto
  with y show "\<exists>y. (q, y) \<in> set (links BeforeBegin xs) \<and> fst (snd y) \<noteq> k" by blast
qed

lemma bucket_of_less: "table m \<noteq> [] \<Longrightarrow> bucket_of m x < length (table m)"
  by (simp add: bucket_of_def)

lemma find_prev_present:
  assumes "invar m" "(p, x) \<in> set (links BeforeBegin (elements m))"
  shows "\<exists>i<length (table m ! bucket_of m x).
           find_prev_in_bucket m (bucket_of m x) (fst (snd x)) = Inr i \<and>
           table m ! bucket_of m x ! i = p"
  using assms placed_found[of "elements m" "bucket_of m" "table m" p x] bucket_of_less[of m x]
  by (simp add: invar_def find_prev_in_bucket_def)

lemma find_prev_absent:
  assumes "invar m" "k \<notin> fst ` set (iterate m)"
  shows "find_prev_in_bucket m (hasher m k mod length (table m)) k
           = Inr (length (table m ! (hasher m k mod length (table m))))"
proof -
  from assms(2) have "k \<notin> set (map (fst \<circ> snd) (elements m))" by (simp add: iterate_def image_comp)
  with assms(1) placed_absent[of "elements m" "bucket_of m" "table m" "hasher m k mod length (table m)" k]
  show ?thesis by (simp add: invar_def find_prev_in_bucket_def)
qed

lemma find_present:
  assumes "invar m" "x \<in> set (elements m)"
  shows "find_hm m (fst (snd x)) = Inr (Node (fst x))"
    and "fst (at_body m (fst (snd x))) = Inr (snd (snd x))"
proof -
  from links_mem_ex[OF assms(2)] obtain p where p: "(p, x) \<in> set (links BeforeBegin (elements m))"
    by blast
  from find_prev_present[OF assms(1) p] obtain i where i: "i < length (table m ! bucket_of m x)"
    "find_prev_in_bucket m (bucket_of m x) (fst (snd x)) = Inr i" "table m ! bucket_of m x ! i = p"
    by blast
  from assms(1) have d: "distinct (map fst (elements m))" by (simp add: invar_def)
  note nd = links_next_deref[OF d p]
  from i nd show "find_hm m (fst (snd x)) = Inr (Node (fst x))"
    by (simp add: find_hm_def bucket_of_def)
  from i nd show "fst (at_body m (fst (snd x))) = Inr (snd (snd x))"
    by (simp add: at_body_def bucket_of_def)
qed

lemma find_absent:
  assumes "invar m" "k \<notin> fst ` set (iterate m)"
  shows "find_hm m k = Inr End" and "fst (at_body m k) = Inl OutOfRange"
  using find_prev_absent[OF assms] by (simp_all add: find_hm_def at_body_def)

lemma at_lookup:
  assumes "invar m"
  shows "fst (at_body m k) = (case map_of (iterate m) k of None \<Rightarrow> Inl OutOfRange | Some v \<Rightarrow> Inr v)"
proof (cases "map_of (iterate m) k")
  case None
  then have "k \<notin> fst ` set (iterate m)" by (simp add: map_of_eq_None_iff)
  from find_absent(2)[OF assms this] None show ?thesis by simp
next
  case (Some v)
  then have "(k, v) \<in> set (iterate m)" by (rule map_of_SomeD)
  then obtain x where "x \<in> set (elements m)" "snd x = (k, v)" by (auto simp: iterate_def)
  with find_present(2)[OF assms this(1)] Some show ?thesis by simp
qed

subsection \<open>The table after \<open>push_front\<close>, \<open>rehash\<close> and \<open>insert\<close>\<close>

lemma mset_bucket_erase_after:
  "i < length ms \<Longrightarrow> mset (bucket_erase_after i ms) = mset ms - {#ms ! i#}"
proof -
  assume "i < length ms"
  then have "ms = take i ms @ ms ! i # drop (Suc i) ms" by (rule id_take_nth_drop)
  then have "mset ms = add_mset (ms ! i) (mset (take i ms @ drop (Suc i) ms))"
    by (metis mset.simps(2) mset_append union_mset_add_mset_right)
  then show ?thesis by (simp add: bucket_erase_after_def)
qed

lemma placed_push_front_empty:
  assumes "placed loc [] t" "loc new < length t"
  shows "placed loc [new] (t[loc new := BeforeBegin # t ! loc new])"
  using assms by (auto simp: placed_def nth_list_update)

lemma placed_push_front_cons:
  assumes "placed loc (x0 # rest) t" "loc new < length t" "loc x0 < length t"
    and "i < length (t ! loc x0)" "t ! loc x0 ! i = BeforeBegin"
  shows "placed loc (new # x0 # rest)
           ((t[loc x0 := (t ! loc x0)[i := Node (fst new)]])
              [loc new := BeforeBegin # (t[loc x0 := (t ! loc x0)[i := Node (fst new)]]) ! loc new])"
  unfolding placed_def
proof (intro ballI)
  fix b
  let ?t1 = "t[loc x0 := (t ! loc x0)[i := Node (fst new)]]"
  let ?t2 = "?t1[loc new := BeforeBegin # ?t1 ! loc new]"
  assume "b \<in> set [0..<length ?t2]"
  then have b: "b < length t" by simp
  from assms(1) b have old: "mset (t ! b) =
      mset (map fst (filter (\<lambda>l. loc (snd l) = b) (links BeforeBegin (x0 # rest))))"
    by (simp add: placed_def)
  have t1: "mset (?t1 ! b) =
      mset (map fst (filter (\<lambda>l. loc (snd l) = b) (links (Node (fst new)) (x0 # rest))))"
  proof (cases "b = loc x0")
    case True
    with assms(3,4,5) old show ?thesis by (simp add: mset_update)
  next
    case False
    with old show ?thesis by simp
  qed
  show "mset (?t2 ! b) =
      mset (map fst (filter (\<lambda>l. loc (snd l) = b) (links BeforeBegin (new # x0 # rest))))"
    using t1 b by (cases "b = loc new") (simp_all add: nth_list_update)
qed

lemma placed_cong:
  assumes "\<forall>x\<in>set xs. loc x = loc' x"
  shows "placed loc xs t = placed loc' xs t"
proof -
  have "filter (\<lambda>l. loc (snd l) = b) (links BeforeBegin xs)
      = filter (\<lambda>l. loc' (snd l) = b) (links BeforeBegin xs)" for b
    using assms by (intro filter_cong) (auto dest: links_snd_mem)
  then show ?thesis by (simp only: placed_def)
qed

lemma filter_mset_split:
  "distinct (map snd L) \<Longrightarrow> (p, x) \<in> set L \<Longrightarrow>
     filter_mset Q (mset L) =
       (if Q (p, x) then {#(p, x)#} else {#}) + filter_mset (\<lambda>l. Q l \<and> snd l \<noteq> x) (mset L)"
proof (induction L)
  case Nil
  then show ?case by simp
next
  case (Cons l L)
  show ?case
  proof (cases "l = (p, x)")
    case True
    with Cons.prems have "\<forall>l' \<in> set L. snd l' \<noteq> x" by auto
    then have "filter_mset (\<lambda>l. Q l \<and> snd l \<noteq> x) (mset L) = filter_mset Q (mset L)"
      by (intro filter_mset_cong) auto
    with True show ?thesis by simp
  next
    case False
    with Cons.prems have mem: "(p, x) \<in> set L" by simp
    then have "x \<in> snd ` set L" by force
    with Cons.prems(1) have "snd l \<noteq> x" by auto
    with Cons mem show ?thesis by simp
  qed
qed

lemma placed_move:
  assumes "distinct (map fst xs)" "placed loc xs t" "(p, x) \<in> set (links BeforeBegin xs)"
    and "loc x < length t" "nb < length t" "loc x \<noteq> nb"
    and "j < length (t ! loc x)" "t ! loc x ! j = p"
  shows "placed (loc(x := nb)) xs
           ((t[nb := p # t ! nb])[loc x := bucket_erase_after j ((t[nb := p # t ! nb]) ! loc x)])"
  unfolding placed_def
proof (intro ballI)
  fix b
  let ?L = "links BeforeBegin xs"
  let ?t1 = "t[nb := p # t ! nb]"
  let ?t2 = "?t1[loc x := bucket_erase_after j (?t1 ! loc x)]"
  let ?rest = "image_mset fst (filter_mset (\<lambda>l. loc (snd l) = b \<and> snd l \<noteq> x) (mset ?L))"
  assume "b \<in> set [0..<length ?t2]"
  then have b: "b < length t" by simp
  from assms(1) have "distinct xs" by (rule distinct_map[THEN iffD1, THEN conjunct1])
  then have d: "distinct (map snd ?L)" by simp
  have new: "mset (map fst (filter (\<lambda>l. (loc(x := nb)) (snd l) = b) ?L))
      = (if nb = b then {#p#} else {#}) + ?rest"
  proof -
    have "filter_mset (\<lambda>l. ((loc(x := nb)) (snd l) = b) \<and> snd l \<noteq> x) (mset ?L)
        = filter_mset (\<lambda>l. loc (snd l) = b \<and> snd l \<noteq> x) (mset ?L)"
      by (intro filter_mset_cong) auto
    with filter_mset_split[OF d assms(3), of "\<lambda>l. (loc(x := nb)) (snd l) = b"]
    show ?thesis by simp
  qed
  from assms(2) b have "mset (t ! b) = mset (map fst (filter (\<lambda>l. loc (snd l) = b) ?L))"
    by (simp add: placed_def)
  with filter_mset_split[OF d assms(3), of "\<lambda>l. loc (snd l) = b"]
  have old: "mset (t ! b) = (if loc x = b then {#p#} else {#}) + ?rest"
    by simp
  have "mset (?t2 ! b) = (if nb = b then {#p#} else {#}) + ?rest"
  proof (cases "b = loc x")
    case True
    with assms(4-8) old show ?thesis
      by (simp add: mset_bucket_erase_after)
  next
    case False
    with assms(4-6) old b show ?thesis
      by (cases "b = nb") simp_all
  qed
  with new show "mset (?t2 ! b) = mset (map fst (filter (\<lambda>l. (loc(x := nb)) (snd l) = b) ?L))"
    by simp
qed

lemma placed_resize:
  assumes "placed loc xs t" "\<forall>x\<in>set xs. loc x < length t"
  shows "placed loc xs (t @ replicate n [])"
  unfolding placed_def
proof (intro ballI)
  fix b assume "b \<in> set [0..<length (t @ replicate n [])]"
  then have bl: "b < length (t @ replicate n [])" by simp
  show "mset ((t @ replicate n []) ! b) =
      mset (map fst (filter (\<lambda>l. loc (snd l) = b) (links BeforeBegin xs)))"
  proof (cases "b < length t")
    case True
    with assms(1) show ?thesis by (simp add: placed_def nth_append)
  next
    case False
    with assms(2) have "filter (\<lambda>l. loc (snd l) = b) (links BeforeBegin xs) = []"
      by (auto simp: filter_empty_conv dest: links_snd_mem)
    with False bl show ?thesis by (simp add: nth_append)
  qed
qed

lemma rehash_loop_placed:
  assumes "elements m = xs" "hasher m = h" "size_cnt m = sz"
    and "distinct (map fst xs)" "distinct (map (fst \<circ> snd) xs)"
    and "0 < n" "length (table m) = 2 * n"
    and "set rs \<subseteq> set xs" "distinct rs"
    and "placed loc xs (table m)"
    and "\<forall>x\<in>set rs. loc x = h (fst (snd x)) mod n"
  shows "\<exists>m'. rehash_loop n rs m = Inr m' \<and> elements m' = xs \<and> hasher m' = h \<and>
           size_cnt m' = sz \<and> length (table m') = 2 * n \<and>
           placed (\<lambda>x. if x \<in> set rs then h (fst (snd x)) mod (2 * n) else loc x) xs (table m')"
  using assms(1,2,3,7-)
proof (induction rs arbitrary: m loc)
  case Nil
  then show ?case by simp
next
  case (Cons x rs)
  let ?pb = "h (fst (snd x)) mod n"
  let ?nb = "h (fst (snd x)) mod (2 * n)"
  from Cons.prems have locx: "loc x = ?pb" by simp
  from assms(6) have "?pb < n" by simp
  with Cons.prems(4) have pb: "?pb < length (table m)" by simp
  from assms(6) Cons.prems(4) have nb: "?nb < length (table m)" by simp
  from assms(6) Cons.prems(4) have tne: "n \<noteq> 0" "table m \<noteq> []" by auto
  show ?case
  proof (cases "?pb = ?nb")
    case True
    have "\<exists>m'. rehash_loop n rs m = Inr m' \<and> elements m' = xs \<and> hasher m' = h \<and>
           size_cnt m' = sz \<and> length (table m') = 2 * n \<and>
           placed (\<lambda>x. if x \<in> set rs then h (fst (snd x)) mod (2 * n) else loc x) xs (table m')"
      using Cons.prems by (intro Cons.IH) auto
    then obtain m' where m': "rehash_loop n rs m = Inr m'" "elements m' = xs"
      "hasher m' = h" "size_cnt m' = sz" "length (table m') = 2 * n"
      "placed (\<lambda>x. if x \<in> set rs then h (fst (snd x)) mod (2 * n) else loc x) xs (table m')"
      by blast
    have "(\<lambda>y. if y \<in> set rs then h (fst (snd y)) mod (2 * n) else loc y)
        = (\<lambda>y. if y \<in> set (x # rs) then h (fst (snd y)) mod (2 * n) else loc y)"
      using True locx by (intro ext) auto
    with m'(6) have "placed (\<lambda>y. if y \<in> set (x # rs) then h (fst (snd y)) mod (2 * n) else loc y)
        xs (table m')" by simp
    moreover have "rehash_loop n (x # rs) m = Inr m'"
      using True m'(1) Cons.prems(2,4) tne by (simp add: Let_def)
    ultimately show ?thesis using m' by blast
  next
    case False
    from Cons.prems(5) links_mem_ex[of x xs BeforeBegin]
    obtain p where p: "(p, x) \<in> set (links BeforeBegin xs)" by auto
    from placed_found[OF assms(4,5) Cons.prems(7) p] locx pb
    obtain j where j: "j < length (table m ! ?pb)"
      "scan_bucket xs (table m ! ?pb) (fst (snd x)) = Inr j" "table m ! ?pb ! j = p"
      by auto
    define t2 where "t2 = ((table m)[?nb := p # table m ! ?nb])
        [?pb := bucket_erase_after j (((table m)[?nb := p # table m ! ?nb]) ! ?pb)]"
    define m1 where "m1 = m\<lparr>table := t2\<rparr>"
    define loc1 where "loc1 = loc(x := ?nb)"
    from placed_move[OF assms(4) Cons.prems(7) p, of ?nb j] locx pb nb False j
    have pl: "placed loc1 xs (table m1)" by (simp add: m1_def t2_def loc1_def)
    have "\<exists>m'. rehash_loop n rs m1 = Inr m' \<and> elements m' = xs \<and> hasher m' = h \<and>
           size_cnt m' = sz \<and> length (table m') = 2 * n \<and>
           placed (\<lambda>y. if y \<in> set rs then h (fst (snd y)) mod (2 * n) else loc1 y) xs (table m')"
    proof (rule Cons.IH)
      show "placed loc1 xs (table m1)" by (rule pl)
      show "\<forall>y\<in>set rs. loc1 y = h (fst (snd y)) mod n" using Cons.prems by (auto simp: loc1_def)
      show "length (table m1) = 2 * n" using Cons.prems(4) by (simp add: m1_def t2_def)
    qed (use Cons.prems in \<open>auto simp: m1_def\<close>)
    then obtain m' where m': "rehash_loop n rs m1 = Inr m'" "elements m' = xs"
      "hasher m' = h" "size_cnt m' = sz" "length (table m') = 2 * n"
      "placed (\<lambda>y. if y \<in> set rs then h (fst (snd y)) mod (2 * n) else loc1 y) xs (table m')"
      by blast
    have "(\<lambda>y. if y \<in> set rs then h (fst (snd y)) mod (2 * n) else loc1 y)
        = (\<lambda>y. if y \<in> set (x # rs) then h (fst (snd y)) mod (2 * n) else loc y)"
      by (intro ext) (auto simp: loc1_def)
    with m'(6) have "placed (\<lambda>y. if y \<in> set (x # rs) then h (fst (snd y)) mod (2 * n) else loc y)
        xs (table m')" by simp
    moreover have "rehash_loop n (x # rs) m = Inr m'"
      using False j pb nb m'(1) Cons.prems(1,2,4) tne
      by (simp add: Let_def find_prev_in_bucket_def m1_def t2_def)
    ultimately show ?thesis using m' by blast
  qed
qed

lemma rehash_invar:
  assumes "invar m"
  shows "\<exists>m'. rehash m = Inr m' \<and> invar m' \<and> elements m' = elements m \<and> hasher m' = hasher m \<and>
           size_cnt m' = size_cnt m \<and> length (table m') = 2 * length (table m)"
proof -
  define n where "n = length (table m)"
  define m1 where "m1 = m\<lparr>table := table m @ replicate n []\<rparr>"
  define loc where "loc = (\<lambda>x::('a, 'b) node. hasher m (fst (snd x)) mod n)"
  from assms have n: "0 < n" and d1: "distinct (map fst (elements m))"
    and d2: "distinct (map (fst \<circ> snd) (elements m))"
    and pl: "placed loc (elements m) (table m)" and sz: "size_cnt m = length (elements m)"
    by (simp_all add: invar_def n_def loc_def bucket_of_def[abs_def])
  from d1 have d: "distinct (elements m)" by (rule distinct_map[THEN iffD1, THEN conjunct1])
  from n have "\<forall>x\<in>set (elements m). loc x < length (table m)" by (simp add: loc_def n_def)
  from placed_resize[OF pl this] have pl1: "placed loc (elements m) (table m1)"
    by (simp add: m1_def)
  have "\<exists>m'. rehash_loop n (elements m) m1 = Inr m' \<and> elements m' = elements m \<and> hasher m' = hasher m \<and>
           size_cnt m' = size_cnt m \<and> length (table m') = 2 * n \<and>
           placed (\<lambda>x. if x \<in> set (elements m) then hasher m (fst (snd x)) mod (2 * n) else loc x)
             (elements m) (table m')"
    by (rule rehash_loop_placed[OF _ _ _ d1 d2 n _ _ d pl1])
       (simp_all add: m1_def n_def loc_def)
  then obtain m' where m': "rehash_loop n (elements m) m1 = Inr m'" "elements m' = elements m"
    "hasher m' = hasher m" "size_cnt m' = size_cnt m" "length (table m') = 2 * n"
    "placed (\<lambda>x. if x \<in> set (elements m) then hasher m (fst (snd x)) mod (2 * n) else loc x)
             (elements m) (table m')" by blast
  from m'(6) have "placed (bucket_of m') (elements m') (table m')"
    using placed_cong[of "elements m" "bucket_of m'"
        "\<lambda>x. if x \<in> set (elements m) then hasher m (fst (snd x)) mod (2 * n) else loc x" "table m'"]
      m'(2,3,5) by (simp add: bucket_of_def)
  with m' d1 d2 sz n have "invar m'" by (auto simp: invar_def)
  moreover have "rehash m = Inr m'" using m'(1) n by (simp add: rehash_def Let_def n_def m1_def)
  ultimately show ?thesis using m' by (auto simp: n_def)
qed

lemma fresh_addr_notin: "fresh_addr xs \<notin> fst ` set xs"
proof
  assume "fresh_addr xs \<in> fst ` set xs"
  then have "fresh_addr xs \<in> set (0 # map fst xs)" by simp
  then have "fresh_addr xs \<le> Max (set (0 # map fst xs))" by (intro Max_ge) auto
  also have "\<dots> = fold max (map fst xs) 0" by (rule Max.set_eq_fold)
  finally show False by (simp add: fresh_addr_def)
qed

lemma insert_fresh_invar:
  assumes "invar m" "k \<notin> fst ` set (iterate m)"
  shows "\<exists>m3. invar m3 \<and> elements m3 = push_front (k, v) (elements m) \<and> hasher m3 = hasher m \<and>
           size_cnt m3 = size_cnt m + 1 \<and> length (table m3) = length (table m) \<and>
           insert_hm m (k, v) = (if size_cnt m3 > length (table m3) then rehash m3 else Inr m3)"
proof -
  define new where "new = (fresh_addr (elements m), k, v)"
  define b where "b = hasher m k mod length (table m)"
  from assms(1) have d1: "distinct (map fst (elements m))"
    and d2: "distinct (map (fst \<circ> snd) (elements m))"
    and pl: "placed (bucket_of m) (elements m) (table m)"
    and sz: "size_cnt m = length (elements m)" and ne: "table m \<noteq> []"
    by (simp_all add: invar_def)
  from ne have b: "b < length (table m)" by (simp add: b_def)
  have bn: "bucket_of m new = b" by (simp add: bucket_of_def new_def b_def)
  note fnd = find_absent(1)[OF assms]
  from fresh_addr_notin[of "elements m"] d1
  have d1': "distinct (map fst (new # elements m))" by (simp add: new_def)
  from assms(2) d2 have d2': "distinct (map (fst \<circ> snd) (new # elements m))"
    by (simp add: new_def iterate_def image_comp)
  show ?thesis
  proof (cases "elements m")
    case Nil
    define m3 where "m3 = m\<lparr>elements := [new], size_cnt := 1,
       table := (table m)[b := BeforeBegin # table m ! b]\<rparr>"
    from pl Nil b bn placed_push_front_empty[of "bucket_of m" "table m" new]
    have "placed (bucket_of m) [new] (table m3)" by (simp add: m3_def)
    moreover have "bucket_of m3 = bucket_of m" by (intro ext) (simp add: bucket_of_def m3_def)
    ultimately have "invar m3" using d1' d2' Nil ne by (simp add: invar_def m3_def)
    moreover have "insert_hm m (k, v) = (if size_cnt m3 > length (table m3) then rehash m3 else Inr m3)"
      using fnd Nil sz b by (simp add: insert_hm_def Let_def m3_def push_front_def new_def b_def)
    ultimately show ?thesis using Nil sz by (intro exI[of _ m3]) (simp add: m3_def push_front_def new_def)
  next
    case (Cons x0 rest)
    define b0 where "b0 = bucket_of m x0"
    from ne have b0: "b0 < length (table m)" by (simp add: b0_def bucket_of_less)
    from Cons have p0: "(BeforeBegin, x0) \<in> set (links BeforeBegin (elements m))" by simp
    from find_prev_present[OF assms(1) p0] obtain i where i: "i < length (table m ! b0)"
      "find_prev_in_bucket m b0 (fst (snd x0)) = Inr i" "table m ! b0 ! i = BeforeBegin"
      by (auto simp: b0_def)
    define t1 where "t1 = (table m)[b0 := (table m ! b0)[i := Node (fst new)]]"
    define m3 where "m3 = m\<lparr>elements := new # elements m, size_cnt := size_cnt m + 1,
       table := t1[b := BeforeBegin # t1 ! b]\<rparr>"
    from placed_push_front_cons[of "bucket_of m" x0 rest "table m" new i] pl Cons b b0 bn i
    have "placed (bucket_of m) (new # elements m) (table m3)"
      by (simp add: m3_def t1_def b0_def)
    moreover have "bucket_of m3 = bucket_of m"
      by (intro ext) (simp add: bucket_of_def m3_def t1_def)
    ultimately have "invar m3" using d1' d2' sz ne by (simp add: invar_def m3_def t1_def)
    moreover have "deref (elements m) (begin_it m) = Inr (snd x0)"
      using Cons d1 by (simp add: begin_it_def deref_def)
    then have "insert_hm m (k, v) = (if size_cnt m3 > length (table m3) then rehash m3 else Inr m3)"
      using fnd Cons sz b i
      by (simp add: insert_hm_def Let_def m3_def t1_def push_front_def new_def b_def b0_def
          bucket_of_def begin_it_def)
    ultimately show ?thesis by (intro exI[of _ m3]) (simp add: m3_def t1_def push_front_def new_def)
  qed
qed

lemma insert_absent:
  assumes "invar m" "k \<notin> fst ` set (iterate m)"
  shows "\<exists>m'. insert_hm m (k, v) = Inr m' \<and> invar m' \<and>
           elements m' = push_front (k, v) (elements m) \<and> hasher m' = hasher m \<and>
           size_cnt m' = size_cnt m + 1 \<and>
           length (table m') =
             (if length (table m) < size_cnt m + 1 then 2 * length (table m) else length (table m))"
proof -
  from insert_fresh_invar[OF assms, of v] obtain m3 where m3: "invar m3"
    "elements m3 = push_front (k, v) (elements m)" "hasher m3 = hasher m"
    "size_cnt m3 = size_cnt m + 1" "length (table m3) = length (table m)"
    "insert_hm m (k, v) = (if size_cnt m3 > length (table m3) then rehash m3 else Inr m3)"
    by blast
  show ?thesis
  proof (cases "size_cnt m3 > length (table m3)")
    case True
    from rehash_invar[OF m3(1)] obtain m' where "rehash m3 = Inr m'" "invar m'"
      "elements m' = elements m3" "hasher m' = hasher m3" "size_cnt m' = size_cnt m3"
      "length (table m') = 2 * length (table m3)" by blast
    with True m3 show ?thesis by simp
  next
    case False
    with m3 show ?thesis by simp
  qed
qed

lemma insert_present:
  assumes "invar m" "k \<in> fst ` set (iterate m)"
  shows "insert_hm m (k, v) = Inr m"
proof -
  from assms(2) obtain x where "x \<in> set (elements m)" "fst (snd x) = k"
    by (auto simp: iterate_def)
  with find_present(1)[OF assms(1) this(1)] show ?thesis by (simp add: insert_hm_def)
qed

subsection \<open>\<open>erase\<close>\<close>

lemma links_append_pos: "links q (us @ vs) = links q us @ links (last_pos q us) vs"
  by (simp add: links_append last_pos_def)

lemma links_split:
  "(p, x) \<in> set (links q xs) \<Longrightarrow> \<exists>us vs. xs = us @ x # vs \<and> p = last_pos q us"
proof (induction xs arbitrary: q)
  case Nil
  then show ?case by simp
next
  case (Cons y ys)
  show ?case
  proof (cases "(p, x) = (q, y)")
    case True
    then have "y # ys = [] @ x # ys \<and> p = last_pos q []" by (simp add: last_pos_def)
    then show ?thesis by blast
  next
    case False
    with Cons.prems have "(p, x) \<in> set (links (Node (fst y)) ys)" by auto
    from Cons.IH[OF this] obtain us vs where "ys = us @ x # vs" "p = last_pos (Node (fst y)) us"
      by blast
    then have "y # ys = (y # us) @ x # vs \<and> p = last_pos q (y # us)"
      by (simp add: last_pos_def)
    then show ?thesis by blast
  qed
qed

lemma tail_after_split:
  "distinct (map fst (us @ x # vs)) \<Longrightarrow> tail_after (Node (fst x)) (us @ x # vs) = Some vs"
  by (induction us) auto

lemma erase_after_node:
  "us \<noteq> [] \<Longrightarrow> distinct (map fst (us @ x # vs))
    \<Longrightarrow> erase_after (Node (fst (last us))) (us @ x # vs) = Inr (us @ vs)"
proof (induction us)
  case Nil
  then show ?case by simp
next
  case (Cons u us)
  show ?case
  proof (cases "us = []")
    case True
    then show ?thesis by simp
  next
    case False
    with Cons.prems have "fst u \<noteq> fst (last us)" by auto
    with Cons False show ?thesis by simp
  qed
qed

lemma erase_after_split:
  "distinct (map fst (us @ x # vs))
    \<Longrightarrow> erase_after (last_pos BeforeBegin us) (us @ x # vs) = Inr (us @ vs)"
  by (cases "us = []") (simp_all add: last_pos_def erase_after_node)

lemma placed_erase_last:
  assumes "placed loc (us @ [x]) t" "loc x < length t"
    and "i < length (t ! loc x)" "t ! loc x ! i = last_pos BeforeBegin us"
  shows "placed loc us (t[loc x := bucket_erase_after i (t ! loc x)])"
  unfolding placed_def
proof (intro ballI)
  fix b
  assume "b \<in> set [0..<length (t[loc x := bucket_erase_after i (t ! loc x)])]"
  then have b: "b < length t" by simp
  with assms(1) have "mset (t ! b) =
      mset (map fst (filter (\<lambda>l. loc (snd l) = b) (links BeforeBegin (us @ [x]))))"
    by (simp add: placed_def)
  with assms(2-) b
  show "mset (t[loc x := bucket_erase_after i (t ! loc x)] ! b) =
      mset (map fst (filter (\<lambda>l. loc (snd l) = b) (links BeforeBegin us)))"
    by (cases "b = loc x") (simp_all add: links_append_pos mset_bucket_erase_after)
qed

lemma placed_erase_inner:
  assumes "placed loc (us @ x # y # ws) t" "loc x < length t" "loc y < length t"
    and "i < length (t ! loc x)" "t ! loc x ! i = last_pos BeforeBegin us"
    and "j < length (t ! loc y)" "t ! loc y ! j = Node (fst x)"
  shows "placed loc (us @ y # ws)
           ((t[loc y := (t ! loc y)[j := last_pos BeforeBegin us]])
              [loc x := bucket_erase_after i
                 ((t[loc y := (t ! loc y)[j := last_pos BeforeBegin us]]) ! loc x)])"
  unfolding placed_def
proof (intro ballI)
  fix b
  let ?p = "last_pos BeforeBegin us"
  let ?t1 = "t[loc y := (t ! loc y)[j := ?p]]"
  let ?t2 = "?t1[loc x := bucket_erase_after i (?t1 ! loc x)]"
  assume "b \<in> set [0..<length ?t2]"
  then have b: "b < length t" by simp
  with assms(1) have old: "mset (t ! b) =
      mset (map fst (filter (\<lambda>l. loc (snd l) = b) (links BeforeBegin (us @ x # y # ws))))"
    by (simp add: placed_def)
  have i1: "i < length (?t1 ! loc x)" "?t1 ! loc x ! i = ?p"
    using assms(2-) by (auto simp: nth_list_update)
  have t1: "mset (?t1 ! b) = mset (map fst (filter (\<lambda>l. loc (snd l) = b)
      (links BeforeBegin us @ (?p, x) # (?p, y) # links (Node (fst y)) ws)))"
    using old assms(3,6,7) b
    by (cases "b = loc y") (simp_all add: links_append_pos mset_update)
  show "mset (?t2 ! b) =
      mset (map fst (filter (\<lambda>l. loc (snd l) = b) (links BeforeBegin (us @ y # ws))))"
  proof (cases "b = loc x")
    case True
    from assms(2) have "?t2 ! loc x = bucket_erase_after i (?t1 ! loc x)" by simp
    with mset_bucket_erase_after[OF i1(1)] i1(2) True
    have "mset (?t2 ! b) = mset (?t1 ! b) - {#?p#}" by simp
    with t1 True show ?thesis by (simp add: links_append_pos)
  next
    case False
    with t1 b show ?thesis by (simp add: links_append_pos)
  qed
qed

lemma erase_present:
  assumes "invar m" "x \<in> set (elements m)"
  shows "\<exists>m'. erase m (fst (snd x)) = Inr m' \<and> invar m' \<and>
           elements m' = filter (\<lambda>y. fst (snd y) \<noteq> fst (snd x)) (elements m) \<and>
           hasher m' = hasher m \<and> size_cnt m' + 1 = size_cnt m \<and>
           length (table m') = length (table m)"
proof -
  from assms(1) have d1: "distinct (map fst (elements m))"
    and d2: "distinct (map (fst \<circ> snd) (elements m))"
    and pl: "placed (bucket_of m) (elements m) (table m)"
    and sz: "size_cnt m = length (elements m)" and ne: "table m \<noteq> []"
    by (simp_all add: invar_def)
  from links_mem_ex[OF assms(2)] obtain p where p: "(p, x) \<in> set (links BeforeBegin (elements m))"
    by blast
  from links_split[OF p] obtain us vs where xs: "elements m = us @ x # vs"
    and pus: "p = last_pos BeforeBegin us" by blast
  define b where "b = bucket_of m x"
  from ne have b: "b < length (table m)" by (simp add: b_def bucket_of_less)
  from find_prev_present[OF assms(1) p] obtain i where i: "i < length (table m ! b)"
    "find_prev_in_bucket m b (fst (snd x)) = Inr i" "table m ! b ! i = p"
    by (auto simp: b_def)
  note nd = links_next_deref[OF d1 p]
  from d1 xs have nx: "next_it (elements m) (Node (fst x))
      = (case vs of [] \<Rightarrow> Inr End | y # ys \<Rightarrow> Inr (Node (fst y)))"
    by (simp add: next_it_def tail_after_split split: list.splits)
  from d1 xs pus have ea: "erase_after p (elements m) = Inr (us @ vs)"
    by (simp add: erase_after_split)
  from sz xs have sz0: "size_cnt m \<noteq> 0" by simp
  from d2 xs have "distinct (map (fst \<circ> snd) (us @ x # vs))" by simp
  then have "fst (snd x) \<notin> (\<lambda>y. fst (snd y)) ` (set us \<union> set vs)"
    by (auto simp: comp_def)
  then have "\<forall>y\<in>set us \<union> set vs. fst (snd y) \<noteq> fst (snd x)"
    by (intro ballI notI) (erule notE, rule rev_image_eqI, assumption, simp)
  then have "filter (\<lambda>y. fst (snd y) \<noteq> fst (snd x)) us = us"
    "filter (\<lambda>y. fst (snd y) \<noteq> fst (snd x)) vs = vs" by (simp_all add: filter_id_conv)
  with xs have flt: "filter (\<lambda>y. fst (snd y) \<noteq> fst (snd x)) (elements m) = us @ vs"
    by simp
  from d1 d2 xs have d': "distinct (map fst (us @ vs))" "distinct (map (fst \<circ> snd) (us @ vs))"
    by auto
  show ?thesis
  proof (cases vs)
    case Nil
    define m' where "m' = m\<lparr>size_cnt := size_cnt m - 1, elements := us,
        table := (table m)[b := bucket_erase_after i (table m ! b)]\<rparr>"
    from placed_erase_last[of "bucket_of m" us x "table m" i] pl xs Nil b i pus
    have "placed (bucket_of m) us (table m')" by (simp add: m'_def b_def)
    moreover have "bucket_of m' = bucket_of m" by (intro ext) (simp add: bucket_of_def m'_def)
    ultimately have "invar m'" using d' Nil sz xs ne by (simp add: invar_def m'_def)
    moreover have "erase m (fst (snd x)) = Inr m'"
      using i nd nx ea Nil sz0
      by (simp add: erase_def Let_def m'_def b_def bucket_of_def)
    ultimately show ?thesis using flt Nil sz0 by (intro exI[of _ m']) (simp add: m'_def)
  next
    case (Cons y ws)
    define c where "c = bucket_of m y"
    from ne have c: "c < length (table m)" by (simp add: c_def bucket_of_less)
    from xs Cons have py: "(Node (fst x), y) \<in> set (links BeforeBegin (elements m))"
      by (simp add: links_append_pos)
    from find_prev_present[OF assms(1) py] obtain j where j: "j < length (table m ! c)"
      "find_prev_in_bucket m c (fst (snd y)) = Inr j" "table m ! c ! j = Node (fst x)"
      by (auto simp: c_def)
    note ndy = links_next_deref[OF d1 py]
    define t1 where "t1 = (table m)[c := (table m ! c)[j := p]]"
    define m' where "m' = m\<lparr>size_cnt := size_cnt m - 1, elements := us @ vs,
        table := t1[b := bucket_erase_after i (t1 ! b)]\<rparr>"
    from placed_erase_inner[of "bucket_of m" us x y ws "table m" i j] pl xs Cons b c i j pus
    have "placed (bucket_of m) (us @ vs) (table m')" by (simp add: m'_def t1_def b_def c_def)
    moreover have "bucket_of m' = bucket_of m" by (intro ext) (simp add: bucket_of_def m'_def t1_def)
    ultimately have inv': "invar m'" using d' sz xs ne by (simp add: invar_def m'_def t1_def)
    have "find_prev_in_bucket (m\<lparr>size_cnt := size_cnt m - 1\<rparr>) c (fst (snd y)) = Inr j"
      using j(2) c by (simp add: find_prev_in_bucket_def)
    moreover have "(table m)[c := (table m ! c)[j := p]] ! b ! i = p"
      using i b c j by (auto simp: nth_list_update)
    ultimately have "erase m (fst (snd x)) = Inr m'"
      using i j nd nx ndy ea Cons sz0
      by (simp add: erase_def Let_def m'_def t1_def b_def c_def bucket_of_def)
    with inv' show ?thesis using flt sz0 by (intro exI[of _ m']) (simp add: m'_def t1_def)
  qed
qed

lemma erase_absent:
  assumes "invar m" "k \<notin> fst ` set (iterate m)"
  shows "erase m k = Inr m"
  using find_prev_absent[OF assms] by (simp add: erase_def)

subsection \<open>Totality of the operations, \<open>clear\<close> and copy-assignment\<close>

lemma invar_empty_map: "invar (empty_map h)"
  by (simp add: invar_def empty_map_def placed_def)

lemma load_ok_empty_map: "load_ok (empty_map h)"
  by (auto simp: load_ok_def empty_map_def intro: exI[of _ 0])

lemma insert_total:
  assumes "invar m"
  shows "\<exists>m'. insert_hm m p = Inr m' \<and> invar m' \<and> hasher m' = hasher m \<and>
           length (table m) \<le> length (table m') \<and> (load_ok m \<longrightarrow> load_ok m')"
proof (cases "fst p \<in> fst ` set (iterate m)")
  case True
  from insert_present[OF assms True, of "snd p"] assms show ?thesis by simp
next
  case False
  from insert_absent[OF assms False, of "snd p"] obtain m' where m': "insert_hm m p = Inr m'" "invar m'"
    "hasher m' = hasher m" "size_cnt m' = size_cnt m + 1"
    "length (table m') =
       (if length (table m) < size_cnt m + 1 then 2 * length (table m) else length (table m))"
    by auto
  have "load_ok m'" if "load_ok m"
  proof -
    from that obtain j where j: "length (table m) = 2 ^ j" and le: "size_cnt m \<le> length (table m)"
      by (auto simp: load_ok_def)
    show ?thesis
    proof (cases "length (table m) < size_cnt m + 1")
      case True
      with m'(5) j have "length (table m') = 2 ^ Suc j" by simp
      moreover from j have "0 < length (table m)" by simp
      moreover from True m'(5) have "length (table m') = 2 * length (table m)" by simp
      ultimately have "size_cnt m' \<le> length (table m')" using m'(4) le by linarith
      moreover from True m'(5) j have "length (table m') = 2 ^ Suc j" by simp
      ultimately show ?thesis unfolding load_ok_def by blast
    next
      case False
      with m'(4,5) j show ?thesis unfolding load_ok_def by auto
    qed
  qed
  with m' show ?thesis by auto
qed

lemma clear_loop_table:
  assumes "table m \<noteq> []"
  shows "\<exists>m'. clear_loop rs m = Inr m' \<and> elements m' = elements m \<and> hasher m' = hasher m \<and>
           size_cnt m' = size_cnt m \<and> length (table m') = length (table m) \<and>
           (\<forall>b<length (table m). table m' ! b = (if b \<in> bucket_of m ` set rs then [] else table m ! b))"
  using assms
proof (induction rs arbitrary: m)
  case Nil
  then show ?case by simp
next
  case (Cons x rs)
  define m1 where "m1 = m\<lparr>table := (table m)[bucket_of m x := []]\<rparr>"
  from Cons.prems have b: "bucket_of m x < length (table m)" by (rule bucket_of_less)
  have bo: "bucket_of m1 = bucket_of m" by (intro ext) (simp add: bucket_of_def m1_def)
  from Cons.prems have "table m1 \<noteq> []" by (simp add: m1_def)
  from Cons.IH[OF this] bo obtain m' where m': "clear_loop rs m1 = Inr m'" "elements m' = elements m"
    "hasher m' = hasher m" "size_cnt m' = size_cnt m" "length (table m') = length (table m)"
    "\<forall>b<length (table m). table m' ! b = (if b \<in> bucket_of m ` set rs then [] else table m1 ! b)"
    by (auto simp: m1_def)
  from b m'(1) have "clear_loop (x # rs) m = Inr m'"
    by (simp add: Let_def m1_def bucket_of_def)
  moreover from m'(6) have "\<forall>b<length (table m).
      table m' ! b = (if b \<in> bucket_of m ` set (x # rs) then [] else table m ! b)"
    by (auto simp: m1_def nth_list_update)
  ultimately show ?case using m' by blast
qed

lemma clear_invar:
  assumes "invar m"
  shows "\<exists>m'. clear m = Inr m' \<and> invar m' \<and> elements m' = [] \<and> size_cnt m' = 0 \<and>
           hasher m' = hasher m \<and> length (table m') = length (table m)"
proof -
  from assms have ne: "table m \<noteq> []" and pl: "placed (bucket_of m) (elements m) (table m)"
    by (simp_all add: invar_def)
  from clear_loop_table[OF ne, of "elements m"] obtain m1 where m1:
    "clear_loop (elements m) m = Inr m1" "hasher m1 = hasher m" "length (table m1) = length (table m)"
    "\<forall>b<length (table m). table m1 ! b = (if b \<in> bucket_of m ` set (elements m) then [] else table m ! b)"
    by blast
  have "table m1 ! b = []" if "b < length (table m)" for b
  proof (cases "b \<in> bucket_of m ` set (elements m)")
    case True
    with m1(4) that show ?thesis by simp
  next
    case False
    then have "filter (\<lambda>l. bucket_of m (snd l) = b) (links BeforeBegin (elements m)) = []"
      by (auto simp: filter_empty_conv dest: links_snd_mem)
    with placedD[OF pl that] have "table m ! b = []" by simp
    with m1(4) that False show ?thesis by simp
  qed
  with m1(3) have "placed loc [] (table m1)" for loc :: "('a, 'b) node \<Rightarrow> nat"
    by (simp add: placed_def)
  with ne m1(3) have "invar (m1\<lparr>elements := [], size_cnt := 0\<rparr>)"
    by (auto simp: invar_def)
  with m1 show ?thesis by (simp add: clear_def)
qed

lemma insert_all_total:
  assumes "invar m"
  shows "\<exists>m'. insert_all ps m = Inr m' \<and> invar m' \<and> hasher m' = hasher m \<and>
           length (table m) \<le> length (table m') \<and> (load_ok m \<longrightarrow> load_ok m')"
  using assms
proof (induction ps arbitrary: m)
  case Nil
  then show ?case by simp
next
  case (Cons p ps)
  from insert_total[OF Cons.prems, of p] obtain m1 where m1: "insert_hm m p = Inr m1" "invar m1"
    "hasher m1 = hasher m" "length (table m) \<le> length (table m1)" "load_ok m \<longrightarrow> load_ok m1"
    by blast
  from Cons.IH[OF m1(2)] obtain m' where "insert_all ps m1 = Inr m'" "invar m'"
    "hasher m' = hasher m1" "length (table m1) \<le> length (table m')" "load_ok m1 \<longrightarrow> load_ok m'"
    by blast
  with m1 show ?case by auto
qed

lemma insert_all_fresh:
  assumes "invar m" "distinct (map fst ps)" "fst ` set ps \<inter> fst ` set (iterate m) = {}"
  shows "\<exists>m'. insert_all ps m = Inr m' \<and> iterate m' = rev ps @ iterate m \<and>
           size_cnt m' = size_cnt m + length ps"
  using assms
proof (induction ps arbitrary: m)
  case Nil
  then show ?case by simp
next
  case (Cons p ps)
  from Cons.prems have "fst p \<notin> fst ` set (iterate m)" by auto
  from insert_absent[OF Cons.prems(1) this, of "snd p"] obtain m1 where m1: "insert_hm m p = Inr m1"
    "invar m1" "elements m1 = push_front p (elements m)" "size_cnt m1 = size_cnt m + 1"
    by auto
  then have it: "iterate m1 = p # iterate m" by (simp add: iterate_def push_front_def)
  with Cons.prems have "fst ` set ps \<inter> fst ` set (iterate m1) = {}" by auto
  with Cons.IH[OF m1(2)] Cons.prems(2) obtain m' where "insert_all ps m1 = Inr m'"
    "iterate m' = rev ps @ iterate m1" "size_cnt m' = size_cnt m1 + length ps" by auto
  with m1 it show ?case by simp
qed

lemma copy_from_invar:
  assumes "invar this" "invar other"
  shows "\<exists>m'. copy_from this other = Inr m' \<and> invar m' \<and> hasher m' = hasher this \<and>
           iterate m' = rev (iterate other) \<and> size_cnt m' = size_cnt other \<and>
           length (table this) \<le> length (table m') \<and> (load_ok this \<longrightarrow> load_ok m')"
proof -
  from clear_invar[OF assms(1)] obtain m1 where m1: "clear this = Inr m1" "invar m1"
    "elements m1 = []" "size_cnt m1 = 0" "hasher m1 = hasher this"
    "length (table m1) = length (table this)" by blast
  from assms(2) have d: "distinct (map fst (iterate other))"
    and sz: "size_cnt other = length (elements other)"
    by (simp_all add: invar_def iterate_def)
  from insert_all_total[OF m1(2), of "iterate other"] obtain m' where m': "insert_all (iterate other) m1 = Inr m'"
    "invar m'" "hasher m' = hasher m1" "length (table m1) \<le> length (table m')"
    "load_ok m1 \<longrightarrow> load_ok m'" by blast
  from insert_all_fresh[OF m1(2) d] m1(3) m'(1) have "iterate m' = rev (iterate other)"
    "size_cnt m' = size_cnt m1 + length (iterate other)" by (auto simp: iterate_def)
  moreover have "load_ok m1" if "load_ok this"
    using that m1(4,6) by (simp add: load_ok_def)
  ultimately show ?thesis using m1 m' sz by (auto simp: copy_from_def iterate_def)
qed

subsection \<open>Counting stored iterators\<close>

lemma sum_buckets:
  "\<forall>l\<in>set L. f l < (n::nat) \<Longrightarrow>
     (\<Sum>b = 0..<n. mset (map g (filter (\<lambda>l. f l = b) L))) = mset (map g L)"
proof (induction L)
  case Nil
  then show ?case by simp
next
  case (Cons l L)
  have "(\<Sum>b = 0..<n. mset (map g (filter (\<lambda>l. f l = b) (l # L))))
      = (\<Sum>b = 0..<n. (if b = f l then {#g l#} else {#}) + mset (map g (filter (\<lambda>l. f l = b) L)))"
    by (intro sum.cong) auto
  also have "\<dots> = (\<Sum>b = 0..<n. if b = f l then {#g l#} else {#})
      + (\<Sum>b = 0..<n. mset (map g (filter (\<lambda>l. f l = b) L)))"
    by (rule sum.distrib)
  also have "(\<Sum>b = 0..<n. if b = f l then {#g l#} else {#}) = {#g l#}"
    using Cons.prems sum.delta[of "{0..<n}" "f l" "\<lambda>b. {#g l#}"] by simp
  finally show ?case using Cons by simp
qed

lemma placed_concat:
  assumes "placed loc xs t" "\<forall>x\<in>set xs. loc x < length t"
  shows "mset (concat t) = mset (map fst (links BeforeBegin xs))"
proof -
  have "mset (concat t) = (\<Sum>b = 0..<length t. mset (t ! b))"
    by (simp add: mset_concat sum_list_sum_nth)
  also have "\<dots> = (\<Sum>b = 0..<length t.
      mset (map fst (filter (\<lambda>l. loc (snd l) = b) (links BeforeBegin xs))))"
    using assms(1) by (intro sum.cong) (simp_all add: placedD)
  also have "\<dots> = mset (map fst (links BeforeBegin xs))"
    using assms(2) by (intro sum_buckets) (auto dest: links_snd_mem)
  finally show ?thesis .
qed

lemma next_it_pred:
  assumes "distinct (map fst xs)" "l \<in> set (links BeforeBegin xs)" "x \<in> set xs"
  shows "next_it xs (fst l) = Inr (Node (fst x)) \<longleftrightarrow> snd l = x"
proof -
  from assms(2) have l: "(fst l, snd l) \<in> set (links BeforeBegin xs)" by simp
  from assms(1) have "inj_on fst (set xs)" by (simp add: distinct_map)
  with links_snd_mem[OF l] assms(3) have "fst (snd l) = fst x \<longleftrightarrow> snd l = x"
    by (auto dest: inj_onD)
  with links_next_deref(1)[OF assms(1) l] show ?thesis by simp
qed

lemma distinct_occurs_once: "distinct xs \<Longrightarrow> x \<in> set xs \<Longrightarrow> length (filter ((=) x) xs) = 1"
proof (induction xs)
  case Nil
  then show ?case by simp
next
  case (Cons y ys)
  show ?case
  proof (cases "x = y")
    case True
    with Cons.prems have "filter ((=) x) ys = []" by (auto simp: filter_empty_conv)
    with True show ?thesis by simp
  next
    case False
    with Cons show ?thesis by simp
  qed
qed

lemma marker_count:
  assumes "distinct (map fst xs)" "x \<in> set xs"
    and "mset ms = mset (map fst (filter Q (links BeforeBegin xs)))"
    and "\<forall>l\<in>set (links BeforeBegin xs). snd l = x \<longrightarrow> Q l"
  shows "length (filter (\<lambda>p. next_it xs p = Inr (Node (fst x))) ms) = 1"
proof -
  let ?P = "\<lambda>p. next_it xs p = Inr (Node (fst x))"
  let ?L = "links BeforeBegin xs"
  have "length (filter ?P ms) = size (filter_mset ?P (mset ms))"
    by (metis mset_filter size_mset)
  also have "\<dots> = length (filter ?P (map fst (filter Q ?L)))"
    by (simp only: assms(3)) (metis mset_filter size_mset)
  also have "\<dots> = length (filter (\<lambda>l. ?P (fst l) \<and> Q l) ?L)"
    by (simp add: filter_map comp_def conj_commute)
  also have "filter (\<lambda>l. ?P (fst l) \<and> Q l) ?L = filter (\<lambda>l. x = snd l) ?L"
    using next_it_pred[OF assms(1) _ assms(2)] assms(4) by (intro filter_cong) auto
  also have "length (filter (\<lambda>l. x = snd l) ?L) = length (filter ((=) x) (map snd ?L))"
    using length_filter_map[of "(=) x" snd ?L] unfolding comp_def by (rule sym)
  also have "\<dots> = length (filter ((=) x) xs)" by simp
  also from assms(1) have "distinct xs" by (rule distinct_map[THEN iffD1, THEN conjunct1])
  then have "length (filter ((=) x) xs) = 1" using assms(2) by (rule distinct_occurs_once)
  finally show ?thesis .
qed

lemma invar_markers:
  assumes "invar m" "x \<in> set (elements m)"
  shows "length (filter (\<lambda>p. next_it (elements m) p = Inr (Node (fst x))) (concat (table m))) = 1"
    and "length (filter (\<lambda>p. next_it (elements m) p = Inr (Node (fst x)))
           (table m ! (hasher m (fst (snd x)) mod length (table m)))) = 1"
proof -
  from assms(1) have d1: "distinct (map fst (elements m))"
    and pl: "placed (bucket_of m) (elements m) (table m)" and ne: "table m \<noteq> []"
    by (simp_all add: invar_def)
  from ne have lt: "\<forall>x\<in>set (elements m). bucket_of m x < length (table m)"
    by (simp add: bucket_of_less)
  from placed_concat[OF pl lt]
  have "mset (concat (table m)) = mset (map fst (filter (\<lambda>l. True) (links BeforeBegin (elements m))))"
    by simp
  from marker_count[OF d1 assms(2) this]
  show "length (filter (\<lambda>p. next_it (elements m) p = Inr (Node (fst x))) (concat (table m))) = 1"
    by simp
  from placedD[OF pl bucket_of_less[OF ne, of x]]
  have "mset (table m ! bucket_of m x) = mset (map fst
      (filter (\<lambda>l. bucket_of m (snd l) = bucket_of m x) (links BeforeBegin (elements m))))" .
  from marker_count[OF d1 assms(2) this]
  show "length (filter (\<lambda>p. next_it (elements m) p = Inr (Node (fst x)))
           (table m ! (hasher m (fst (snd x)) mod length (table m)))) = 1"
    by (simp add: bucket_of_def)
qed

lemma invar_sizes:
  assumes "invar m"
  shows "size_cnt m = length (elements m)" "size_cnt m = length (concat (table m))"
proof -
  from assms show sz: "size_cnt m = length (elements m)" by (simp add: invar_def)
  from assms have pl: "placed (bucket_of m) (elements m) (table m)" and ne: "table m \<noteq> []"
    by (simp_all add: invar_def)
  from ne have lt: "\<forall>x\<in>set (elements m). bucket_of m x < length (table m)"
    by (simp add: bucket_of_less)
  from placed_concat[OF pl lt] have "size (mset (concat (table m)))
      = size (mset (map fst (links BeforeBegin (elements m))))" by simp
  with sz show "size_cnt m = length (concat (table m))" by simp
qed

subsection \<open>\<open>operator[]\<close> and reachable states\<close>

lemma index_present:
  assumes "invar m" "x \<in> set (elements m)"
  shows "index_op m (fst (snd x)) d = Inr (Node (fst x), m)"
    and "deref (elements m) (Node (fst x)) = Inr (snd x)"
proof -
  from links_mem_ex[OF assms(2)] obtain p where p: "(p, x) \<in> set (links BeforeBegin (elements m))"
    by blast
  from find_prev_present[OF assms(1) p] obtain i where i: "i < length (table m ! bucket_of m x)"
    "find_prev_in_bucket m (bucket_of m x) (fst (snd x)) = Inr i" "table m ! bucket_of m x ! i = p"
    by blast
  from assms(1) have d: "distinct (map fst (elements m))" by (simp add: invar_def)
  note nd = links_next_deref[OF d p]
  from i nd show "index_op m (fst (snd x)) d = Inr (Node (fst x), m)"
    by (simp add: index_op_def bucket_of_def)
  from nd show "deref (elements m) (Node (fst x)) = Inr (snd x)" by simp
qed

lemma index_absent:
  assumes "invar m" "k \<notin> fst ` set (iterate m)"
  shows "\<exists>m'. insert_hm m (k, d) = Inr m' \<and>
           index_op m k d = Inr (Node (fresh_addr (elements m)), m') \<and>
           deref (elements m') (Node (fresh_addr (elements m))) = Inr (k, d)"
proof -
  from insert_absent[OF assms, of d] obtain m' where m': "insert_hm m (k, d) = Inr m'" "invar m'"
    "elements m' = push_front (k, d) (elements m)" by blast
  then have "begin_it m' = Node (fresh_addr (elements m))"
    "deref (elements m') (Node (fresh_addr (elements m))) = Inr (k, d)"
    by (simp_all add: begin_it_def push_front_def deref_def)
  with m'(1) find_prev_absent[OF assms] show ?thesis by (simp add: index_op_def)
qed

lemma index_total:
  assumes "invar m"
  shows "\<exists>it m'. index_op m k d = Inr (it, m') \<and> (m' = m \<or> insert_hm m (k, d) = Inr m')"
proof (cases "k \<in> fst ` set (iterate m)")
  case True
  then obtain x where "x \<in> set (elements m)" "fst (snd x) = k" by (auto simp: iterate_def)
  with index_present(1)[OF assms this(1), of d] show ?thesis by auto
next
  case False
  from index_absent[OF assms False, of d] show ?thesis by blast
qed

lemma erase_total:
  assumes "invar m"
  shows "\<exists>m'. erase m k = Inr m' \<and> invar m' \<and> hasher m' = hasher m \<and>
           size_cnt m' \<le> size_cnt m \<and> length (table m') = length (table m)"
proof (cases "k \<in> fst ` set (iterate m)")
  case True
  then obtain x where x: "x \<in> set (elements m)" "fst (snd x) = k" by (auto simp: iterate_def)
  from erase_present[OF assms x(1)] x(2) show ?thesis by auto
next
  case False
  from erase_absent[OF assms False] assms show ?thesis by simp
qed

lemma reachable_invar: "reachable m \<Longrightarrow> invar m \<and> load_ok m"
proof (induction rule: reachable.induct)
  case (r_empty h)
  show ?case by (simp add: invar_empty_map load_ok_empty_map)
next
  case (r_insert m p m')
  with insert_total[of m p] show ?case by auto
next
  case (r_erase m k m')
  with erase_total[of m k] show ?case by (auto simp: load_ok_def)
next
  case (r_index m k d it m')
  with index_total[of m k d] insert_total[of m "(k, d)"] show ?case by auto
next
  case (r_clear m m')
  with clear_invar[of m] show ?case by (auto simp: load_ok_def)
next
  case (r_rehash m m')
  then obtain j where j: "length (table m) = 2 ^ j" by (auto simp: load_ok_def)
  from r_rehash rehash_invar[of m] have m': "invar m'" "size_cnt m' = size_cnt m"
    "length (table m') = 2 * length (table m)" by auto
  with j have "length (table m') = 2 ^ Suc j" by simp
  moreover from r_rehash m' have "size_cnt m' \<le> length (table m')" by (simp add: load_ok_def)
  ultimately show ?case using m'(1) unfolding load_ok_def by blast
next
  case (r_assign m src m')
  with copy_from_invar[of m src] show ?case by auto
qed

subsection \<open>Concrete maps and lookups\<close>

lemma example_map_invar: "invar example_map"
  by code_simp

lemma small_map_invar: "invar small_map"
  by code_simp

lemma insert_eval:
  assumes "invar m"
    and "case insert_hm m p of
           Inr m' \<Rightarrow> elements m' = es \<and> table m' = t \<and> size_cnt m' = n
         | Inl e \<Rightarrow> False"
  shows "insert_hm m p = Inr \<lparr>hasher = hasher m, elements = es, table = t, size_cnt = n\<rparr>"
proof -
  from insert_total[OF assms(1), of p] obtain m' where "insert_hm m p = Inr m'" "hasher m' = hasher m"
    by blast
  with assms(2) show ?thesis by simp
qed

lemma small_map_reachable: "reachable small_map"
proof -
  define m0 :: "(nat, nat) HashMap" where "m0 = empty_map (\<lambda>k. k)"
  define m1 :: "(nat, nat) HashMap" where
    "m1 = \<lparr>hasher = (\<lambda>k. k), elements = [(1, 1, 10)], table = [[BeforeBegin]], size_cnt = 1\<rparr>"
  have r0: "reachable m0" unfolding m0_def by (rule r_empty)
  have "case insert_hm (empty_map (\<lambda>k. k)) (1::nat, 10::nat) of
          Inr m' \<Rightarrow> elements m' = [(1, 1, 10)] \<and> table m' = [[BeforeBegin]] \<and> size_cnt m' = 1
        | Inl e \<Rightarrow> False" by code_simp
  from insert_eval[OF invar_empty_map this] have "insert_hm m0 (1, 10) = Inr m1"
    by (simp add: m0_def m1_def empty_map_def)
  with r0 have r1: "reachable m1" by (rule r_insert)
  with reachable_invar have i1: "invar m1" by blast
  have "case insert_hm \<lparr>hasher = (\<lambda>k. k), elements = [(1, 1, 10)], table = [[BeforeBegin]],
            size_cnt = 1\<rparr> (2::nat, 20::nat) of
          Inr m' \<Rightarrow> elements m' = [(2, 2, 20), (1, 1, 10)] \<and>
            table m' = [[BeforeBegin], [Node 2]] \<and> size_cnt m' = 2
        | Inl e \<Rightarrow> False" by code_simp
  from insert_eval[OF i1[unfolded m1_def] this] have "insert_hm m1 (2, 20) = Inr small_map"
    by (simp add: m1_def small_map_def)
  with r1 show ?thesis by (rule r_insert)
qed

lemma small_map_insert: "insert_hm small_map (3, 30) = Inr example_map"
proof -
  have "case insert_hm \<lparr>hasher = (\<lambda>k. k), elements = [(2, 2, 20), (1, 1, 10)],
            table = [[BeforeBegin], [Node 2]], size_cnt = 2\<rparr> (3::nat, 30::nat) of
          Inr m' \<Rightarrow> elements m' = [(3, 3, 30), (2, 2, 20), (1, 1, 10)] \<and>
            table m' = [[], [Node 2], [Node 3], [BeforeBegin]] \<and> size_cnt m' = 3
        | Inl e \<Rightarrow> False" by code_simp
  from insert_eval[OF small_map_invar[unfolded small_map_def] this] show ?thesis
    by (simp add: small_map_def example_map_def)
qed

lemma example_map_reachable: "reachable example_map"
  using small_map_reachable small_map_insert by (rule r_insert)

lemma find_End_iff:
  assumes "invar m"
  shows "find_hm m k = Inr End \<longleftrightarrow> k \<notin> fst ` set (iterate m)"
proof
  assume fe: "find_hm m k = Inr End"
  show "k \<notin> fst ` set (iterate m)"
  proof
    assume "k \<in> fst ` set (iterate m)"
    then obtain x where "x \<in> set (elements m)" "fst (snd x) = k" by (auto simp: iterate_def)
    with find_present(1)[OF assms this(1)] fe show False by simp
  qed
next
  assume "k \<notin> fst ` set (iterate m)"
  then show "find_hm m k = Inr End" by (rule find_absent(1)[OF assms])
qed

lemma find_char:
  assumes "invar m"
  shows "find_hm m k =
    Inr (case map_of (map (\<lambda>x. (fst (snd x), fst x)) (elements m)) k of
           None \<Rightarrow> End | Some a \<Rightarrow> Node a)"
proof (cases "map_of (map (\<lambda>x. (fst (snd x), fst x)) (elements m)) k")
  case None
  then have "k \<notin> fst ` set (iterate m)"
    by (force simp: map_of_eq_None_iff iterate_def image_iff)
  from find_absent(1)[OF assms this] None show ?thesis by simp
next
  case (Some a)
  from map_of_SomeD[OF this] obtain x where x: "x \<in> set (elements m)" "fst (snd x) = k" "fst x = a"
    by auto
  from find_present(1)[OF assms x(1)] x Some show ?thesis by simp
qed

lemma map_of_filter_other:
  "k' \<noteq> k \<Longrightarrow> map_of (filter (\<lambda>p. fst p \<noteq> k) ps) k' = map_of ps k'"
  by (induction ps) auto

section \<open>The properties of the specification\<close>

text \<open>
  The theorems below assume the invariant \<open>invar\<close>, which holds in every reachable map
  (\<open>reachable_invar\<close>), or reachability itself.
\<close>

text \<open>
  Claim C1.  In every map reachable from an empty map by \<open>insert\<close>, \<open>erase\<close>,
  \<open>operator[]\<close>, \<open>clear\<close>, \<open>rehash\<close> and copy-assignment, every live entry has exactly one
  stored iterator whose successor is that entry, counted over all buckets, and it is stored in
  bucket \<open>hash(key) mod bucket_count\<close>; the stored size is the number of entries and the
  number of stored iterators of all buckets together.
\<close>

theorem marker_size_invariant:
  assumes "reachable m"
  shows "(\<forall>x\<in>set (elements m).
            length (filter (\<lambda>p. next_it (elements m) p = Inr (Node (fst x)))
                      (concat (table m))) = 1 \<and>
            length (filter (\<lambda>p. next_it (elements m) p = Inr (Node (fst x)))
                      (table m ! (hash_function m (fst (snd x)) mod length (table m)))) = 1) \<and>
         size_hm m = length (elements m) \<and>
         size_hm m = length (concat (table m))"
proof -
  from reachable_invar[OF assms] have inv: "invar m" by simp
  from invar_markers[OF inv] invar_sizes[OF inv] show ?thesis
    by (simp add: hash_function_def size_hm_def)
qed

theorem marker_size_invariant_witness:
  "reachable example_map \<and> (2, 2, 20) \<in> set (elements example_map) \<and>
   length (filter (\<lambda>p. next_it (elements example_map) p = Inr (Node 2))
             (concat (table example_map))) = 1 \<and>
   length (filter (\<lambda>p. next_it (elements example_map) p = Inr (Node 2))
             (table example_map ! (hash_function example_map 2 mod length (table example_map)))) = 1 \<and>
   size_hm example_map = length (elements example_map) \<and>
   size_hm example_map = length (concat (table example_map))"
proof -
  have h: "(2, 2, 20) \<in> set (elements example_map)" by (simp add: example_map_def)
  from marker_size_invariant[OF example_map_reachable] h
  have "length (filter (\<lambda>p. next_it (elements example_map) p = Inr (Node (fst (2::nat, 2::nat, 20::nat))))
             (concat (table example_map))) = 1 \<and>
        length (filter (\<lambda>p. next_it (elements example_map) p = Inr (Node (fst (2::nat, 2::nat, 20::nat))))
             (table example_map ! (hash_function example_map (fst (snd (2::nat, 2::nat, 20::nat)))
                mod length (table example_map)))) = 1"
    by blast
  with marker_size_invariant[OF example_map_reachable] example_map_reachable h
  show ?thesis by simp
qed

lemma at_rejected: "at m k = (Inl IllFormed, m)"
  by (simp add: at_def callable_from_def at_qualifier_def find_prev_in_bucket_qualifier_def)

lemma insert_then_at_body:
  assumes "invar m" "k \<notin> fst ` set (iterate m)"
  shows "\<exists>m'. insert_hm m (k, v) = Inr m' \<and> fst (at_body m' k) = Inr v"
proof -
  from insert_absent[OF assms, of v] obtain m' where m': "insert_hm m (k, v) = Inr m'" "invar m'"
    "elements m' = push_front (k, v) (elements m)" by blast
  from m'(3) have "(fresh_addr (elements m), k, v) \<in> set (elements m')" by (simp add: push_front_def)
  from find_present(2)[OF m'(2) this] m'(1) show ?thesis by simp
qed

text \<open>
  Claim C2.  Round trip: \<open>insert (k, v)\<close> of a key that is not in the map, then \<open>at k\<close>, is to
  return \<open>v\<close>.  The code does not do it.  \<open>insert\<close> succeeds, but \<open>at\<close> is a \<open>const\<close> member
  that calls \<open>find_prev_in_bucket\<close>, which is not \<open>const\<close>: the call is ill-formed and \<open>at\<close>
  returns nothing.  The statements of its body would return \<open>v\<close> (\<open>insert_then_at_body\<close>), so
  the slip is in the qualifiers of the two declarations.  Here at the key 7 of \<open>example_map\<close>.
\<close>

theorem insert_then_at_ill_formed:
  "\<exists>m'. insert_hm example_map (7, 70) = Inr m' \<and>
     fst (at m' 7) = Inl IllFormed \<and> fst (at m' 7) \<noteq> Inr 70 \<and>
     fst (at_body m' 7) = Inr 70"
proof -
  have "7 \<notin> fst ` set (iterate example_map)" by (simp add: example_map_def iterate_def)
  from insert_then_at_body[OF example_map_invar this, of 70] show ?thesis
    by (auto simp: at_rejected)
qed



text \<open>
  Claim C4.  \<open>rehash\<close> keeps the contents: it succeeds, leaves the entry list as it is (the same
  nodes in the same order, so iteration yields the same pairs), and \<open>find\<close> and the body of
  \<open>at\<close> give the same answer for every key before and after; only the table changes, to twice its
  length.  An \<open>insert\<close> of a new key that exceeds the load factor runs \<open>rehash\<close> on the way:
  the table doubles, the old entries keep their places behind the new one and every old
  key is still looked up with the same result.
\<close>

theorem rehash_preserves_contents:
  assumes "invar m"
  shows "(\<exists>m'. rehash m = Inr m' \<and> elements m' = elements m \<and> iterate m' = iterate m \<and>
            size_hm m' = size_hm m \<and> length (table m') = 2 * length (table m) \<and>
            (\<forall>k. find_hm m' k = find_hm m k \<and> fst (at_body m' k) = fst (at_body m k))) \<and>
         (\<forall>k v. k \<notin> fst ` set (iterate m) \<and> length (table m) < size_hm m + 1 \<longrightarrow>
            (\<exists>m'. insert_hm m (k, v) = Inr m' \<and> length (table m') = 2 * length (table m) \<and>
               elements m' = push_front (k, v) (elements m) \<and>
               iterate m' = (k, v) # iterate m \<and>
               (\<forall>k'\<in>fst ` set (iterate m).
                  find_hm m' k' = find_hm m k' \<and> fst (at_body m' k') = fst (at_body m k'))))"
proof
  from rehash_invar[OF assms] obtain m' where m': "rehash m = Inr m'" "invar m'"
    "elements m' = elements m" "size_cnt m' = size_cnt m"
    "length (table m') = 2 * length (table m)" by blast
  from m'(3) have "find_hm m' k = find_hm m k \<and> fst (at_body m' k) = fst (at_body m k)" for k
    by (simp add: find_char[OF assms] find_char[OF m'(2)] at_lookup[OF assms] at_lookup[OF m'(2)]
        iterate_def)
  with m' show "\<exists>m'. rehash m = Inr m' \<and> elements m' = elements m \<and> iterate m' = iterate m \<and>
            size_hm m' = size_hm m \<and> length (table m') = 2 * length (table m) \<and>
            (\<forall>k. find_hm m' k = find_hm m k \<and> fst (at_body m' k) = fst (at_body m k))"
    by (simp add: iterate_def size_hm_def)
next
  show "\<forall>k v. k \<notin> fst ` set (iterate m) \<and> length (table m) < size_hm m + 1 \<longrightarrow>
            (\<exists>m'. insert_hm m (k, v) = Inr m' \<and> length (table m') = 2 * length (table m) \<and>
               elements m' = push_front (k, v) (elements m) \<and>
               iterate m' = (k, v) # iterate m \<and>
               (\<forall>k'\<in>fst ` set (iterate m).
                  find_hm m' k' = find_hm m k' \<and> fst (at_body m' k') = fst (at_body m k')))"
  proof (intro allI impI, elim conjE)
    fix k v
    assume abs: "k \<notin> fst ` set (iterate m)" and full: "length (table m) < size_hm m + 1"
    from insert_absent[OF assms abs, of v] full obtain m' where m': "insert_hm m (k, v) = Inr m'"
      "invar m'" "elements m' = push_front (k, v) (elements m)"
      "length (table m') = 2 * length (table m)" by (auto simp: size_hm_def)
    from m'(3) have it: "iterate m' = (k, v) # iterate m" by (simp add: iterate_def push_front_def)
    have "find_hm m' k' = find_hm m k' \<and> fst (at_body m' k') = fst (at_body m k')"
      if "k' \<in> fst ` set (iterate m)" for k'
    proof -
      from that abs have ne: "k' \<noteq> k" by auto
      then have "fst (at_body m' k') = fst (at_body m k')"
        by (simp add: at_lookup[OF assms] at_lookup[OF m'(2)] it)
      moreover from ne m'(3) have "find_hm m' k' = find_hm m k'"
        by (simp add: find_char[OF assms] find_char[OF m'(2)] push_front_def)
      ultimately show ?thesis by simp
    qed
    with m' it show "\<exists>m'. insert_hm m (k, v) = Inr m' \<and> length (table m') = 2 * length (table m) \<and>
               elements m' = push_front (k, v) (elements m) \<and>
               iterate m' = (k, v) # iterate m \<and>
               (\<forall>k'\<in>fst ` set (iterate m).
                  find_hm m' k' = find_hm m k' \<and> fst (at_body m' k') = fst (at_body m k'))"
      by blast
  qed
qed

theorem rehash_preserves_contents_witness:
  "invar small_map \<and>
   (\<exists>m'. rehash small_map = Inr m' \<and> elements m' = elements small_map \<and>
      iterate m' = iterate small_map \<and> size_hm m' = size_hm small_map \<and>
      length (table m') = 2 * length (table small_map) \<and>
      (\<forall>k. find_hm m' k = find_hm small_map k \<and> fst (at_body m' k) = fst (at_body small_map k))) \<and>
   3 \<notin> fst ` set (iterate small_map) \<and> length (table small_map) < size_hm small_map + 1 \<and>
   (\<exists>m'. insert_hm small_map (3, 30) = Inr m' \<and> length (table m') = 2 * length (table small_map) \<and>
      elements m' = push_front (3, 30) (elements small_map) \<and>
      iterate m' = (3, 30) # iterate small_map \<and>
      find_hm m' 2 = find_hm small_map 2 \<and> fst (at_body m' 2) = fst (at_body small_map 2))"
proof -
  have h1: "3 \<notin> fst ` set (iterate small_map)" by (simp add: small_map_def iterate_def)
  have h2: "length (table small_map) < size_hm small_map + 1" by (simp add: small_map_def size_hm_def)
  have h3: "2 \<in> fst ` set (iterate small_map)" by (simp add: small_map_def iterate_def)
  note inst = rehash_preserves_contents[OF small_map_invar]
  from inst h1 h2 obtain m' where "insert_hm small_map (3, 30) = Inr m'"
    "length (table m') = 2 * length (table small_map)"
    "elements m' = push_front (3, 30) (elements small_map)"
    "iterate m' = (3, 30) # iterate small_map"
    "\<forall>k'\<in>fst ` set (iterate small_map).
        find_hm m' k' = find_hm small_map k' \<and> fst (at_body m' k') = fst (at_body small_map k')"
    by blast
  with h3 have "\<exists>m'. insert_hm small_map (3, 30) = Inr m' \<and>
      length (table m') = 2 * length (table small_map) \<and>
      elements m' = push_front (3, 30) (elements small_map) \<and>
      iterate m' = (3, 30) # iterate small_map \<and>
      find_hm m' 2 = find_hm small_map 2 \<and> fst (at_body m' 2) = fst (at_body small_map 2)" by blast
  with inst small_map_invar h1 h2 show ?thesis by blast
qed

text \<open>
  Claim C5.  \<open>erase\<close> of a key that is in the map succeeds; afterwards \<open>find\<close> reports the key
  absent, the size is one less, iteration yields the other pairs in their old order and
  the body of \<open>at\<close> gives the same answer for every other key.  \<open>erase\<close> of a key that is
  not in the map returns the map as it was.
\<close>

theorem erase_correct:
  assumes "invar m"
  shows "(k \<in> fst ` set (iterate m) \<longrightarrow>
           (\<exists>m'. erase m k = Inr m' \<and> find_hm m' k = Inr End \<and>
              size_hm m' + 1 = size_hm m \<and>
              iterate m' = filter (\<lambda>p. fst p \<noteq> k) (iterate m) \<and>
              (\<forall>k'. k' \<noteq> k \<longrightarrow> fst (at_body m' k') = fst (at_body m k')))) \<and>
         (k \<notin> fst ` set (iterate m) \<longrightarrow> erase m k = Inr m)"
proof (intro conjI impI)
  assume "k \<in> fst ` set (iterate m)"
  then obtain x where x: "x \<in> set (elements m)" "fst (snd x) = k" by (auto simp: iterate_def)
  from erase_present[OF assms x(1)] x(2) obtain m' where m': "erase m k = Inr m'" "invar m'"
    "elements m' = filter (\<lambda>y. fst (snd y) \<noteq> k) (elements m)" "size_cnt m' + 1 = size_cnt m"
    by auto
  from m'(3) have it: "iterate m' = filter (\<lambda>p. fst p \<noteq> k) (iterate m)"
    by (simp add: iterate_def filter_map comp_def)
  then have "k \<notin> fst ` set (iterate m')" by auto
  with find_End_iff[OF m'(2)] have "find_hm m' k = Inr End" by simp
  moreover have "fst (at_body m' k') = fst (at_body m k')" if "k' \<noteq> k" for k'
    using that by (simp add: at_lookup[OF assms] at_lookup[OF m'(2)] it map_of_filter_other)
  ultimately show "\<exists>m'. erase m k = Inr m' \<and> find_hm m' k = Inr End \<and>
              size_hm m' + 1 = size_hm m \<and>
              iterate m' = filter (\<lambda>p. fst p \<noteq> k) (iterate m) \<and>
              (\<forall>k'. k' \<noteq> k \<longrightarrow> fst (at_body m' k') = fst (at_body m k'))"
    using m' it by (auto simp: size_hm_def)
next
  assume "k \<notin> fst ` set (iterate m)"
  then show "erase m k = Inr m" by (rule erase_absent[OF assms])
qed

theorem erase_correct_witness:
  "invar example_map \<and> 2 \<in> fst ` set (iterate example_map) \<and>
   (\<exists>m'. erase example_map 2 = Inr m' \<and> find_hm m' 2 = Inr End \<and>
      size_hm m' + 1 = size_hm example_map \<and>
      iterate m' = filter (\<lambda>p. fst p \<noteq> 2) (iterate example_map) \<and>
      fst (at_body m' 3) = fst (at_body example_map 3)) \<and>
   7 \<notin> fst ` set (iterate example_map) \<and> erase example_map 7 = Inr example_map"
proof -
  have h1: "2 \<in> fst ` set (iterate example_map)" by (simp add: example_map_def iterate_def)
  have h2: "7 \<notin> fst ` set (iterate example_map)" by (simp add: example_map_def iterate_def)
  from erase_correct[OF example_map_invar, of 2] h1 obtain m' where
    "erase example_map 2 = Inr m'" "find_hm m' 2 = Inr End" "size_hm m' + 1 = size_hm example_map"
    "iterate m' = filter (\<lambda>p. fst p \<noteq> 2) (iterate example_map)"
    "\<forall>k'. k' \<noteq> 2 \<longrightarrow> fst (at_body m' k') = fst (at_body example_map k')" by blast
  then have "\<exists>m'. erase example_map 2 = Inr m' \<and> find_hm m' 2 = Inr End \<and>
      size_hm m' + 1 = size_hm example_map \<and>
      iterate m' = filter (\<lambda>p. fst p \<noteq> 2) (iterate example_map) \<and>
      fst (at_body m' 3) = fst (at_body example_map 3)" by simp
  with erase_correct[OF example_map_invar, of 7] example_map_invar h1 h2 show ?thesis by blast
qed

lemma mutated_grows:
  assumes "invar m" "load_ok m" "mutated m m'"
  shows "length (table m) \<le> length (table m') \<and> load_ok m' \<and> invar m'"
proof -
  from assms(3) consider
      (ins) p where "insert_hm m p = Inr m'"
    | (ers) k where "erase m k = Inr m'"
    | (idx) k d it where "index_op m k d = Inr (it, m')"
    | (clr) "clear m = Inr m'"
    | (reh) "rehash m = Inr m'"
    | (cpy) src where "reachable src" "copy_from m src = Inr m'"
    unfolding mutated_def by blast
  then show ?thesis
  proof cases
    case ins
    with insert_total[OF assms(1), of p] assms(2) show ?thesis by auto
  next
    case ers
    with erase_total[OF assms(1), of k] assms(2) show ?thesis by (auto simp: load_ok_def)
  next
    case idx
    with index_total[OF assms(1), of k d] insert_total[OF assms(1), of "(k, d)"] assms
    show ?thesis by auto
  next
    case clr
    with clear_invar[OF assms(1)] assms(2) show ?thesis by (auto simp: load_ok_def)
  next
    case reh
    from assms(2) obtain j where j: "length (table m) = 2 ^ j" by (auto simp: load_ok_def)
    from reh rehash_invar[OF assms(1)] have m': "invar m'" "size_cnt m' = size_cnt m"
      "length (table m') = 2 * length (table m)" by auto
    with j have "length (table m') = 2 ^ Suc j" by simp
    moreover from assms(2) m' have "size_cnt m' \<le> length (table m')" by (simp add: load_ok_def)
    ultimately have "load_ok m'" unfolding load_ok_def by blast
    with m' show ?thesis by simp
  next
    case cpy
    from reachable_invar[OF cpy(1)] have "invar src" by simp
    from copy_from_invar[OF assms(1) this] cpy(2) assms(2) show ?thesis by auto
  qed
qed

text \<open>
  Claim C6.  In every reachable map the size is at most the number of buckets, and the number
  of buckets is a power of two (the doubling sequence; it starts at 1, the number of buckets
  of an empty map); no public mutating operation, \<open>erase\<close> and \<open>clear\<close> included, makes the
  number of buckets smaller, and the bound on the size holds again when the operation has
  completed.
\<close>

theorem load_factor_and_growth:
  fixes m :: "('k, 'v) HashMap"
  assumes "reachable m"
  shows "size_hm m \<le> length (table m) \<and> (\<exists>j. length (table m) = 2 ^ j) \<and>
         (\<forall>m'. mutated m m' \<longrightarrow>
            length (table m) \<le> length (table m') \<and> size_hm m' \<le> length (table m') \<and>
            (\<exists>j. length (table m') = 2 ^ j)) \<and>
         length (table (empty_map (hasher m) :: ('k, 'v) HashMap)) = 1"
proof -
  from reachable_invar[OF assms] have inv: "invar m" and lo: "load_ok m" by simp_all
  from mutated_grows[OF inv lo] lo show ?thesis
    by (auto simp: load_ok_def size_hm_def empty_map_def)
qed

theorem load_factor_and_growth_witness:
  "reachable small_map \<and> size_hm small_map \<le> length (table small_map) \<and>
   (\<exists>j. length (table small_map) = 2 ^ j) \<and> mutated small_map example_map \<and>
   length (table small_map) \<le> length (table example_map) \<and>
   size_hm example_map \<le> length (table example_map) \<and>
   (\<exists>j. length (table example_map) = 2 ^ j)"
proof -
  have h: "mutated small_map example_map" unfolding mutated_def using small_map_insert by blast
  with load_factor_and_growth[OF small_map_reachable] small_map_reachable show ?thesis by blast
qed

lemma at_body_raises_iff_absent:
  assumes "invar m"
  shows "(fst (at_body m k) = Inl OutOfRange \<longleftrightarrow> k \<notin> fst ` set (iterate m)) \<and>
         (\<forall>v. (k, v) \<in> set (iterate m) \<longrightarrow> fst (at_body m k) = Inr v) \<and>
         snd (at_body m k) = m"
proof (intro conjI allI impI)
  show "fst (at_body m k) = Inl OutOfRange \<longleftrightarrow> k \<notin> fst ` set (iterate m)"
  proof (cases "map_of (iterate m) k")
    case None
    then have "k \<notin> fst ` set (iterate m)" by (simp add: map_of_eq_None_iff)
    with None show ?thesis by (simp add: at_lookup[OF assms])
  next
    case (Some v)
    from map_of_SomeD[OF this] have "k \<in> fst ` set (iterate m)" by force
    with Some show ?thesis by (simp add: at_lookup[OF assms])
  qed
next
  fix v assume "(k, v) \<in> set (iterate m)"
  moreover from assms have "distinct (map fst (iterate m))" by (simp add: invar_def iterate_def)
  ultimately have "map_of (iterate m) k = Some v" by simp
  then show "fst (at_body m k) = Inr v" by (simp add: at_lookup[OF assms])
next
  show "snd (at_body m k) = m" by (simp add: at_body_def Let_def split: sum.splits)
qed

text \<open>
  Claim C7.  \<open>at\<close> is to throw \<open>std::out_of_range\<close> exactly when the key is not in the map, to
  return the value stored with the key otherwise, and to leave the map as it was.  The code
  does not do it: \<open>at\<close> is a \<open>const\<close> member that calls \<open>find_prev_in_bucket\<close>, which is not
  \<open>const\<close>, so \<open>at\<close> is ill-formed and neither throws nor returns, for the key 7 that is not
  in \<open>example_map\<close> and for the key 2 that is.  The statements of its body do what the claim
  says (\<open>at_body_raises_iff_absent\<close>); the slip is in the qualifiers of the declarations.
\<close>

theorem at_ill_formed:
  "fst (at example_map 7) = Inl IllFormed \<and> fst (at example_map 7) \<noteq> Inl OutOfRange \<and>
   fst (at example_map 2) = Inl IllFormed \<and> fst (at example_map 2) \<noteq> Inr 20 \<and>
   fst (at_body example_map 7) = Inl OutOfRange \<and> fst (at_body example_map 2) = Inr 20"
proof -
  have h1: "7 \<notin> fst ` set (iterate example_map)" by (simp add: example_map_def iterate_def)
  have h2: "(2, 20) \<in> set (iterate example_map)" by (simp add: example_map_def iterate_def)
  from at_body_raises_iff_absent[OF example_map_invar, of 7]
    at_body_raises_iff_absent[OF example_map_invar, of 2] h1 h2
  show ?thesis by (auto simp: at_rejected)
qed

text \<open>
  Claim C8.  \<open>operator[]\<close> on a key that is in the map returns the node that holds the key and
  its value and leaves the map as it was.  On a key that is not in the map it runs \<open>insert\<close>
  with the default value (a possible \<open>rehash\<close> included) and returns the node that
  \<open>insert\<close> created, which holds the key and the default value; the size is one more.
\<close>

theorem index_access_semantics:
  assumes "invar m"
  shows "(\<forall>v. (k, v) \<in> set (iterate m) \<longrightarrow>
            (\<exists>a. index_op m k d = Inr (Node a, m) \<and>
               deref (elements m) (Node a) = Inr (k, v))) \<and>
         (k \<notin> fst ` set (iterate m) \<longrightarrow>
            (\<exists>a m'. index_op m k d = Inr (Node a, m') \<and> insert_hm m (k, d) = Inr m' \<and>
               deref (elements m') (Node a) = Inr (k, d) \<and> fst (at_body m' k) = Inr d \<and>
               size_hm m' = size_hm m + 1))"
proof (intro conjI allI impI)
  fix v assume "(k, v) \<in> set (iterate m)"
  then obtain x where x: "x \<in> set (elements m)" "snd x = (k, v)" by (auto simp: iterate_def)
  from index_present(1)[OF assms x(1), of d] index_present(2)[OF assms x(1)] x(2)
  show "\<exists>a. index_op m k d = Inr (Node a, m) \<and> deref (elements m) (Node a) = Inr (k, v)"
    by auto
next
  assume abs: "k \<notin> fst ` set (iterate m)"
  from index_absent[OF assms abs, of d] obtain m' where m': "insert_hm m (k, d) = Inr m'"
    "index_op m k d = Inr (Node (fresh_addr (elements m)), m')"
    "deref (elements m') (Node (fresh_addr (elements m))) = Inr (k, d)" by blast
  from insert_absent[OF assms abs, of d] m'(1) have i: "invar m'"
    "elements m' = push_front (k, d) (elements m)" "size_cnt m' = size_cnt m + 1" by auto
  from i(2) have "(fresh_addr (elements m), k, d) \<in> set (elements m')" by (simp add: push_front_def)
  from find_present(2)[OF i(1) this] have "fst (at_body m' k) = Inr d" by simp
  with m' i(3)
  show "\<exists>a m'. index_op m k d = Inr (Node a, m') \<and> insert_hm m (k, d) = Inr m' \<and>
               deref (elements m') (Node a) = Inr (k, d) \<and> fst (at_body m' k) = Inr d \<and>
               size_hm m' = size_hm m + 1"
    by (auto simp: size_hm_def)
qed

theorem index_access_semantics_witness:
  "invar example_map \<and> (2, 20) \<in> set (iterate example_map) \<and>
   (\<exists>a. index_op example_map 2 0 = Inr (Node a, example_map) \<and>
      deref (elements example_map) (Node a) = Inr (2, 20)) \<and>
   7 \<notin> fst ` set (iterate example_map) \<and>
   (\<exists>a m'. index_op example_map 7 0 = Inr (Node a, m') \<and> insert_hm example_map (7, 0) = Inr m' \<and>
      deref (elements m') (Node a) = Inr (7, 0) \<and> fst (at_body m' 7) = Inr 0 \<and>
      size_hm m' = size_hm example_map + 1)"
proof -
  have h1: "(2, 20) \<in> set (iterate example_map)" by (simp add: example_map_def iterate_def)
  have h2: "7 \<notin> fst ` set (iterate example_map)" by (simp add: example_map_def iterate_def)
  from index_access_semantics[OF example_map_invar, of 2 0] index_access_semantics[OF example_map_invar, of 7 0]
    example_map_invar h1 h2
  show ?thesis by blast
qed

lemma other_map_invar: "invar other_map"
  by code_simp

text \<open>
  Claim C10.  Copy-assignment does not copy the hash function: after \<open>b = a\<close> the object \<open>b\<close>
  still has the hasher it had before, whatever the hasher of \<open>a\<close> is, and \<open>hash_function()\<close>
  returns it.
\<close>

theorem copy_assignment_keeps_hasher:
  assumes "s a = Some ma" "s b = Some mb" "invar ma" "invar mb" "a \<noteq> b"
  shows "\<exists>s' mb'. assign s b a = Inr s' \<and> s' b = Some mb' \<and>
           copy_from mb ma = Inr mb' \<and> hasher mb' = hasher mb \<and>
           hash_function mb' = hash_function mb"
proof -
  from copy_from_invar[OF assms(4,3)] obtain mb' where mb': "copy_from mb ma = Inr mb'"
    "hasher mb' = hasher mb" by blast
  with assms(1,2,5) have "assign s b a = Inr (s(b \<mapsto> mb'))" by (simp add: assign_def)
  with mb' show ?thesis by (simp add: hash_function_def)
qed

theorem copy_assignment_keeps_hasher_witness:
  "example_store 0 = Some example_map \<and> example_store 1 = Some other_map \<and>
   invar example_map \<and> invar other_map \<and> (0::nat) \<noteq> 1 \<and>
   hash_function other_map \<noteq> hash_function example_map \<and>
   (\<exists>s' mb'. assign example_store 1 0 = Inr s' \<and> s' 1 = Some mb' \<and>
      copy_from other_map example_map = Inr mb' \<and> hasher mb' = hasher other_map \<and>
      hash_function mb' = hash_function other_map \<and>
      hash_function mb' \<noteq> hash_function example_map)"
proof -
  have h0: "example_store 0 = Some example_map" by (simp add: example_store_def)
  have h1: "example_store 1 = Some other_map" by (simp add: example_store_def)
  have h2: "(0::nat) \<noteq> 1" by simp
  have "hash_function other_map 0 \<noteq> hash_function example_map 0"
    by (simp add: hash_function_def other_map_def example_map_def)
  then have h3: "hash_function other_map \<noteq> hash_function example_map" by metis
  from copy_assignment_keeps_hasher[OF h0 h1 example_map_invar other_map_invar h2]
  obtain s' mb' where "assign example_store 1 0 = Inr s'" "s' 1 = Some mb'"
    "copy_from other_map example_map = Inr mb'" "hasher mb' = hasher other_map"
    "hash_function mb' = hash_function other_map" by blast
  with h0 h1 h2 h3 example_map_invar other_map_invar show ?thesis by auto
qed

subsection \<open>The member functions on an object that owns its stored iterators\<close>

lemma local_global [simp]: "local_it (global_it ob it) = it"
  by (cases it) auto

lemma owner_global [simp]: "owner (global_it ob it) = (if it = End then None else Some ob)"
  by (cases it) auto

lemma global_local: "owner it = Some ob \<Longrightarrow> global_it ob (local_it it) = it"
  by (cases it) auto

lemma global_it_End [simp]: "global_it ob it = EndIt \<longleftrightarrow> it = End"
  by (cases it) auto

lemma global_it_inj [simp]: "global_it ob it = global_it ob it' \<longleftrightarrow> it = it'"
  by (cases it; cases it') auto

lemma localize_globalize [simp]: "localize (globalize ob m) = m"
  by (simp add: localize_def globalize_def comp_def)

lemma globalize_localize: "owned ob g \<Longrightarrow> globalize ob (localize g) = g"
proof -
  assume "owned ob g"
  then have "map (map (global_it ob \<circ> local_it)) (obj_table g) = obj_table g"
    by (intro map_idI) (auto simp: owned_def global_local)
  then show ?thesis by (simp add: localize_def globalize_def)
qed

lemma globalize_simps [simp]:
  "obj_hasher (globalize ob m) = hasher m"
  "obj_elements (globalize ob m) = elements m"
  "obj_table (globalize ob m) = map (map (global_it ob)) (table m)"
  "obj_size (globalize ob m) = size_cnt m"
  by (simp_all add: globalize_def)

lemma mem_next_sim:
  "s this = Some (globalize this m) \<Longrightarrow>
     mem_next s (global_it this it) =
       (case next_it (elements m) it of Inl e \<Rightarrow> Inl e | Inr n \<Rightarrow> Inr (global_it this n))"
  by (cases it) (auto simp: mem_next_def next_it_def split: sum.splits option.splits list.splits)

lemma mem_deref_sim:
  "s this = Some (globalize this m) \<Longrightarrow> mem_deref s (global_it this it) = deref (elements m) it"
  by (cases it) (auto simp: mem_deref_def deref_def)

lemma scan_sim:
  "s this = Some (globalize this m) \<Longrightarrow>
     mem_scan_bucket s (map (global_it this) ms) key = scan_bucket (elements m) ms key"
  by (induction ms) (auto simp: mem_next_sim mem_deref_sim split: sum.splits)

lemma scan_le: "scan_bucket xs ms key = Inr i \<Longrightarrow> i \<le> length ms"
  by (induction ms arbitrary: i) (auto split: sum.splits if_splits)

lemma find_prev_sim:
  "s this = Some (globalize this m) \<Longrightarrow>
     obj_find_prev_in_bucket s this b key = find_prev_in_bucket m b key"
  by (simp add: obj_find_prev_in_bucket_def find_prev_in_bucket_def scan_sim)

lemma find_prev_range:
  "find_prev_in_bucket m b key = Inr i \<Longrightarrow> b < length (table m) \<and> i \<le> length (table m ! b)"
  by (auto simp: find_prev_in_bucket_def scan_le split: if_splits)

lemma find_sim:
  assumes "s this = Some (globalize this m)"
  shows "obj_find s this key =
    (case find_hm m key of Inl e \<Rightarrow> Inl e | Inr f \<Rightarrow> Inr (global_it this f))"
proof (cases "find_prev_in_bucket m (hasher m key mod length (table m)) key")
  case (Inl e)
  with assms show ?thesis by (simp add: obj_find_def find_hm_def find_prev_sim)
next
  case (Inr i)
  from find_prev_range[OF this] Inr assms show ?thesis
    by (auto simp: obj_find_def find_hm_def find_prev_sim mem_next_sim Let_def)
qed

lemma lift_map_upd [simp]: "lift_map (s(this \<mapsto> g)) this r = lift_map s this r"
  by (simp add: lift_map_def split: sum.splits)

lemma globalize_table_upd:
  "globalize ob (m\<lparr>table := t\<rparr>) = (globalize ob m)\<lparr>obj_table := map (map (global_it ob)) t\<rparr>"
  by (simp add: globalize_def)

lemma bucket_erase_after_map:
  "bucket_erase_after j (map f ms) = map f (bucket_erase_after j ms)"
  by (simp add: bucket_erase_after_def take_map drop_map)

lemma rehash_loop_sim:
  "s this = Some (globalize this m) \<Longrightarrow>
     obj_rehash_loop n xs s this = lift_map s this (rehash_loop n xs m)"
proof (induction xs arbitrary: s m)
  case Nil
  then show ?case by (simp add: lift_map_def fun_upd_idem)
next
  case (Cons x xs)
  let ?key = "fst (snd x)"
  let ?pb = "hasher m ?key mod n"
  let ?nb = "hasher m ?key mod length (table m)"
  show ?case
  proof (cases "n = 0 \<or> table m = []")
    case True
    with Cons.prems show ?thesis by (auto simp: lift_map_def)
  next
    case ne: False
    show ?thesis
    proof (cases "?pb = ?nb")
      case True
      with ne Cons.prems Cons.IH[of s m, OF Cons.prems] show ?thesis by (simp add: Let_def)
    next
      case diff: False
      show ?thesis
      proof (cases "find_prev_in_bucket m ?pb ?key")
        case (Inl e)
        with ne diff Cons.prems show ?thesis
          by (simp add: Let_def find_prev_sim lift_map_def)
      next
        case (Inr j)
        from find_prev_range[OF Inr] have pb: "?pb < length (table m)" by simp
        from ne have nb: "?nb < length (table m)" by simp
        show ?thesis
        proof (cases "j < length (table m ! ?pb)")
          case False
          with ne diff Cons.prems Inr pb show ?thesis
            by (simp add: Let_def find_prev_sim lift_map_def)
        next
          case True
          define t1 where "t1 = (table m)[?nb := (table m ! ?pb ! j) # (table m ! ?nb)]"
          define t2 where "t2 = t1[?pb := bucket_erase_after j (t1 ! ?pb)]"
          define m1 where "m1 = m\<lparr>table := t2\<rparr>"
          define s1 where "s1 = s(this \<mapsto> globalize this m1)"
          have s1: "s1 this = Some (globalize this m1)" by (simp add: s1_def)
          have loc: "rehash_loop n (x # xs) m = rehash_loop n xs m1"
            using ne diff Inr True by (simp add: Let_def m1_def t2_def t1_def)
          have "obj_rehash_loop n (x # xs) s this = obj_rehash_loop n xs s1 this"
            using ne diff Inr True pb nb Cons.prems
            by (simp add: Let_def find_prev_sim s1_def m1_def t2_def t1_def globalize_def
                map_update bucket_erase_after_map nth_list_update)
          also have "\<dots> = lift_map s1 this (rehash_loop n xs m1)" by (rule Cons.IH[of s1 m1, OF s1])
          also have "\<dots> = lift_map s this (rehash_loop n xs m1)" by (simp add: s1_def)
          finally show ?thesis unfolding loc .
        qed
      qed
    qed
  qed
qed

lemma rehash_sim:
  assumes "s this = Some (globalize this m)"
  shows "obj_rehash s this = lift_map s this (rehash m)"
proof -
  define m1 where "m1 = m\<lparr>table := table m @ replicate (length (table m)) []\<rparr>"
  define s1 where "s1 = s(this \<mapsto> globalize this m1)"
  have s1: "s1 this = Some (globalize this m1)" by (simp add: s1_def)
  have "obj_rehash s this = obj_rehash_loop (length (table m)) (elements m1) s1 this"
    using assms by (simp add: obj_rehash_def Let_def s1_def m1_def globalize_def)
  also have "\<dots> = lift_map s1 this (rehash_loop (length (table m)) (elements m1) m1)"
    by (rule rehash_loop_sim[where s=s1 and m=m1 and this=this, OF s1])
  also have "\<dots> = lift_map s this (rehash m)"
    by (simp add: s1_def rehash_def Let_def m1_def)
  finally show ?thesis .
qed

lemma clear_loop_sim:
  "s this = Some (globalize this m) \<Longrightarrow>
     obj_clear_loop xs s this = lift_map s this (clear_loop xs m)"
proof (induction xs arbitrary: s m)
  case Nil
  then show ?case by (simp add: lift_map_def fun_upd_idem)
next
  case (Cons x xs)
  let ?b = "hasher m (fst (snd x)) mod length (table m)"
  show ?case
  proof (cases "?b < length (table m)")
    case False
    with Cons.prems show ?thesis by (simp add: Let_def lift_map_def)
  next
    case True
    define m1 where "m1 = m\<lparr>table := (table m)[?b := []]\<rparr>"
    define s1 where "s1 = s(this \<mapsto> globalize this m1)"
    have s1: "s1 this = Some (globalize this m1)" by (simp add: s1_def)
    have "obj_clear_loop (x # xs) s this = obj_clear_loop xs s1 this"
      using True Cons.prems by (simp add: Let_def s1_def m1_def globalize_def map_update)
    also have "\<dots> = lift_map s1 this (clear_loop xs m1)" by (rule Cons.IH[of s1 m1, OF s1])
    also have "\<dots> = lift_map s this (clear_loop (x # xs) m)"
      using True by (simp add: s1_def Let_def m1_def)
    finally show ?thesis .
  qed
qed

lemma clear_sim:
  assumes "s this = Some (globalize this m)"
  shows "obj_clear s this = lift_map s this (clear m)"
proof (cases "clear_loop (elements m) m")
  case (Inl e)
  with assms clear_loop_sim[where s=s and m=m and this=this and xs="elements m", OF assms] show ?thesis
    by (simp add: obj_clear_def clear_def lift_map_def)
next
  case (Inr m1)
  with assms clear_loop_sim[where s=s and m=m and this=this and xs="elements m", OF assms] show ?thesis
    by (simp add: obj_clear_def clear_def lift_map_def globalize_def)
qed

lemma insert_hm_halves:
  "insert_hm m p =
     (case find_hm m (fst p) of
        Inl e \<Rightarrow> Inl e
      | Inr f \<Rightarrow>
          if f \<noteq> End then Inr m
          else (case insert_front m p of Inl e \<Rightarrow> Inl e | Inr m1 \<Rightarrow> insert_back m1 p))"
  unfolding insert_hm_def insert_front_def insert_back_def ..

lemma obj_insert_halves:
  "obj_insert s this p =
     (case s this of
        None \<Rightarrow> Inl Undefined
      | Some m \<Rightarrow>
          (case obj_find s this (fst p) of
             Inl e \<Rightarrow> Inl e
           | Inr f \<Rightarrow>
               if f \<noteq> EndIt then Inr s
               else (case obj_insert_front s this m p of
                       Inl e \<Rightarrow> Inl e
                     | Inr m1 \<Rightarrow> obj_insert_back s this m1 p)))"
  unfolding obj_insert_def obj_insert_front_def obj_insert_back_def ..

lemma obj_begin_globalize: "obj_begin this (globalize this m) = global_it this (begin_it m)"
  by (simp add: obj_begin_def begin_it_def split: list.splits)

lemma insert_back_sim:
  "obj_insert_back s this (globalize this m1) p = lift_map s this (insert_back m1 p)"
proof -
  let ?b = "hasher m1 (fst p) mod length (table m1)"
  show ?thesis
  proof (cases "?b < length (table m1)")
    case False
    then show ?thesis by (simp add: obj_insert_back_def insert_back_def Let_def lift_map_def)
  next
    case True
    define m3 where "m3 = m1\<lparr>size_cnt := size_cnt m1 + 1,
        table := (table m1)[?b := BeforeBegin # (table m1 ! ?b)]\<rparr>"
    define g3 where "g3 = (globalize this m1)\<lparr>obj_size := size_cnt m1 + 1,
        obj_table := (obj_table (globalize this m1))
          [?b := BeforeBeginOf this # (obj_table (globalize this m1) ! ?b)]\<rparr>"
    have g3: "g3 = globalize this m3"
      using True by (simp add: g3_def globalize_def m3_def map_update)
    have loc: "insert_back m1 p = (if size_cnt m3 > length (table m3) then rehash m3 else Inr m3)"
      using True by (simp add: insert_back_def Let_def m3_def)
    have "obj_insert_back s this (globalize this m1) p =
        (if obj_size g3 > length (obj_table g3) then obj_rehash (s(this \<mapsto> g3)) this
         else Inr (s(this \<mapsto> g3)))"
      using True by (simp add: obj_insert_back_def Let_def g3_def)
    also have "\<dots> = lift_map s this (if size_cnt m3 > length (table m3) then rehash m3 else Inr m3)"
    proof -
      have "obj_rehash (s(this \<mapsto> globalize this m3)) this = lift_map s this (rehash m3)"
        using rehash_sim[where s="s(this \<mapsto> globalize this m3)" and this=this and m=m3]
        by simp
      then show ?thesis by (simp add: g3 lift_map_def)
    qed
    finally show ?thesis by (simp only: loc)
  qed
qed

lemma insert_front_sim:
  assumes "s this = Some (globalize this m)"
  shows "obj_insert_front s this (globalize this m) p =
    (case insert_front m p of Inl e \<Rightarrow> Inl e | Inr m1 \<Rightarrow> Inr (globalize this m1))"
proof (cases "size_cnt m > 0")
  case False
  then show ?thesis by (simp add: obj_insert_front_def insert_front_def globalize_def)
next
  case pos: True
  show ?thesis
  proof (cases "deref (elements m) (begin_it m)")
    case (Inl e)
    with pos assms show ?thesis
      by (simp add: obj_insert_front_def insert_front_def obj_begin_globalize mem_deref_sim)
  next
    case fst: (Inr first)
    let ?b0 = "hasher m (fst first) mod length (table m)"
    show ?thesis
    proof (cases "find_prev_in_bucket m ?b0 (fst first)")
      case (Inl e)
      with fst pos assms show ?thesis
        by (simp add: obj_insert_front_def insert_front_def obj_begin_globalize mem_deref_sim
            find_prev_sim)
    next
      case fp: (Inr i)
      from find_prev_range[OF fp] have b0: "?b0 < length (table m)" by simp
      show ?thesis
      proof (cases "i < length (table m ! ?b0)")
        case False
        with fp b0 fst pos assms show ?thesis
          by (simp add: obj_insert_front_def insert_front_def obj_begin_globalize mem_deref_sim
              find_prev_sim)
      next
        case True
        define m0 where "m0 = m\<lparr>elements := push_front p (elements m)\<rparr>"
        define m1 where "m1 = m0\<lparr>table := (table m0)[?b0 := (table m0 ! ?b0)[i := begin_it m0]]\<rparr>"
        define g0 where "g0 = (globalize this m)\<lparr>obj_elements := push_front p (elements m)\<rparr>"
        define g1 where
          "g1 = g0\<lparr>obj_table := (obj_table g0)[?b0 := (obj_table g0 ! ?b0)[i := obj_begin this g0]]\<rparr>"
        have loc: "insert_front m p = Inr m1"
          using True fp fst pos by (simp add: insert_front_def Let_def m1_def m0_def)
        have glob: "obj_insert_front s this (globalize this m) p = Inr g1"
          using True fp b0 fst pos assms
          by (simp add: obj_insert_front_def obj_begin_globalize mem_deref_sim find_prev_sim
              Let_def g1_def g0_def)
        have "g1 = globalize this m1"
          using b0 True
          by (simp add: g1_def g0_def m1_def m0_def globalize_def map_update obj_begin_def
              begin_it_def push_front_def)
        with loc glob show ?thesis by simp
      qed
    qed
  qed
qed

lemma insert_sim:
  assumes "s this = Some (globalize this m)"
  shows "obj_insert s this p = lift_map s this (insert_hm m p)"
proof (cases "find_hm m (fst p)")
  case (Inl e)
  with assms show ?thesis by (simp add: obj_insert_halves insert_hm_halves find_sim lift_map_def)
next
  case (Inr f)
  show ?thesis
  proof (cases "f = End")
    case False
    with Inr assms show ?thesis
      by (simp add: obj_insert_halves insert_hm_halves find_sim lift_map_def fun_upd_idem)
  next
    case True
    show ?thesis
    proof (cases "insert_front m p")
      case (Inl e)
      with True Inr assms insert_front_sim[where s=s and this=this and m=m and p=p, OF assms] show ?thesis
        by (simp add: obj_insert_halves insert_hm_halves find_sim lift_map_def)
    next
      case (Inr m1)
      with True \<open>find_hm m (fst p) = Inr f\<close> assms insert_front_sim[where s=s and this=this and m=m and p=p, OF assms] show ?thesis
        by (simp add: obj_insert_halves insert_hm_halves find_sim insert_back_sim)
    qed
  qed
qed

lemma erase_steps:
  "erase m key =
     (let bucket_index = hasher m key mod length (table m) in
      case find_prev_in_bucket m bucket_index key of
        Inl e \<Rightarrow> Inl e
      | Inr i \<Rightarrow>
          if i = length (table m ! bucket_index) then Inr m
          else
            let m1 = m\<lparr>size_cnt := (if size_cnt m = 0 then 2 ^ 64 - 1 else size_cnt m - 1)\<rparr>
            in (case next_it (elements m1) (table m1 ! bucket_index ! i) of
                  Inl e \<Rightarrow> Inl e
                | Inr jt \<Rightarrow>
                    (case next_it (elements m1) jt of
                       Inl e \<Rightarrow> Inl e
                     | Inr nj \<Rightarrow>
                         (case erase_relink m1 bucket_index i nj of
                            Inl e \<Rightarrow> Inl e
                          | Inr m2 \<Rightarrow> erase_unlink m2 bucket_index i))))"
  unfolding erase_def erase_relink_def erase_unlink_def ..

lemma obj_erase_steps:
  "obj_erase s this key =
     (case s this of
        None \<Rightarrow> Inl Undefined
      | Some m \<Rightarrow>
          let bucket_index = obj_hasher m key mod length (obj_table m) in
          (case obj_find_prev_in_bucket s this bucket_index key of
             Inl e \<Rightarrow> Inl e
           | Inr i \<Rightarrow>
               if i = length (obj_table m ! bucket_index) then Inr s
               else
                 let m1 = m\<lparr>obj_size := (if obj_size m = 0 then 2 ^ 64 - 1 else obj_size m - 1)\<rparr>;
                     s1 = s(this \<mapsto> m1)
                 in (case mem_next s1 (obj_table m1 ! bucket_index ! i) of
                       Inl e \<Rightarrow> Inl e
                     | Inr jt \<Rightarrow>
                         (case mem_next s1 jt of
                            Inl e \<Rightarrow> Inl e
                          | Inr nj \<Rightarrow>
                              (case obj_erase_relink s1 this m1 bucket_index i nj of
                                 Inl e \<Rightarrow> Inl e
                               | Inr m2 \<Rightarrow> obj_erase_unlink s this m2 bucket_index i)))))"
  unfolding obj_erase_def obj_erase_relink_def obj_erase_unlink_def ..

lemma erase_relink_sim:
  assumes "s1 this = Some (globalize this m1)"
    and "b < length (table m1)" "i < length (table m1 ! b)"
  shows "obj_erase_relink s1 this (globalize this m1) b i (global_it this nj) =
    (case erase_relink m1 b i nj of Inl e \<Rightarrow> Inl e | Inr m2 \<Rightarrow> Inr (globalize this m2))"
proof (cases "nj = End")
  case True
  then show ?thesis by (simp add: obj_erase_relink_def erase_relink_def)
next
  case ne: False
  show ?thesis
  proof (cases "deref (elements m1) nj")
    case (Inl e)
    with ne assms(1) show ?thesis
      by (simp add: obj_erase_relink_def erase_relink_def mem_deref_sim)
  next
    case nx: (Inr nx)
    let ?c = "hasher m1 (fst nx) mod length (table m1)"
    show ?thesis
    proof (cases "find_prev_in_bucket m1 ?c (fst nx)")
      case (Inl e)
      with nx ne assms(1) show ?thesis
        by (simp add: obj_erase_relink_def erase_relink_def mem_deref_sim find_prev_sim)
    next
      case fp: (Inr k)
      from find_prev_range[OF fp] have c: "?c < length (table m1)" by simp
      show ?thesis
      proof (cases "k < length (table m1 ! ?c)")
        case False
        with fp c nx ne assms(1) show ?thesis
          by (simp add: obj_erase_relink_def erase_relink_def mem_deref_sim find_prev_sim)
      next
        case True
        define m2 where "m2 = m1\<lparr>table := (table m1)[?c := (table m1 ! ?c)[k := table m1 ! b ! i]]\<rparr>"
        define g1 where "g1 = globalize this m1"
        define g2 where "g2 = g1\<lparr>obj_table := (obj_table g1)[?c :=
            (obj_table g1 ! ?c)[k := obj_table g1 ! b ! i]]\<rparr>"
        have loc: "erase_relink m1 b i nj = Inr m2"
          using True fp nx ne by (simp add: erase_relink_def Let_def m2_def)
        have glob: "obj_erase_relink s1 this (globalize this m1) b i (global_it this nj) = Inr g2"
          using True fp c nx ne assms(1)
          by (simp add: obj_erase_relink_def mem_deref_sim find_prev_sim Let_def g2_def g1_def)
        have "g2 = globalize this m2"
          using c True assms(2,3)
          by (simp add: g2_def g1_def m2_def globalize_def map_update)
        with loc glob show ?thesis by simp
      qed
    qed
  qed
qed

lemma length_nth_update2:
  "length (t[c := (t ! c)[k := v]] ! b) = length (t ! b)"
  by (cases "c < length t") (simp_all add: nth_list_update list_update_beyond)

lemma erase_relink_shape:
  "erase_relink m1 b i nj = Inr m2 \<Longrightarrow>
     length (table m2) = length (table m1) \<and> length (table m2 ! b) = length (table m1 ! b)"
  by (auto simp: erase_relink_def Let_def length_nth_update2 split: if_splits sum.splits)

lemma erase_unlink_sim:
  assumes "b < length (table m2)" "i < length (table m2 ! b)"
  shows "obj_erase_unlink s this (globalize this m2) b i = lift_map s this (erase_unlink m2 b i)"
proof -
  have ea: "obj_erase_after this (global_it this it) xs = erase_after it xs"
    for it and xs :: "('a, 'b) node list"
    by (cases it) (simp_all add: obj_erase_after_def)
  show ?thesis
  proof (cases "erase_after (table m2 ! b ! i) (elements m2)")
    case (Inl e)
    with assms show ?thesis
      by (simp add: obj_erase_unlink_def erase_unlink_def ea lift_map_def)
  next
    case (Inr es)
    with assms show ?thesis
      by (simp add: obj_erase_unlink_def erase_unlink_def ea lift_map_def globalize_def
          map_update bucket_erase_after_map)
  qed
qed

lemma erase_sim:
  assumes "s this = Some (globalize this m)"
  shows "obj_erase s this key = lift_map s this (erase m key)"
proof -
  let ?b = "hasher m key mod length (table m)"
  show ?thesis
  proof (cases "find_prev_in_bucket m ?b key")
    case (Inl e)
    with assms show ?thesis
      by (simp add: obj_erase_steps erase_steps find_prev_sim lift_map_def)
  next
    case fp: (Inr i)
    from find_prev_range[OF fp] have b: "?b < length (table m)" and il: "i \<le> length (table m ! ?b)"
      by simp_all
    show ?thesis
    proof (cases "i = length (table m ! ?b)")
      case True
      with fp b assms show ?thesis
        by (simp add: obj_erase_steps erase_steps find_prev_sim lift_map_def fun_upd_idem)
    next
      case False
      with il have i: "i < length (table m ! ?b)" by simp
      define m1 where "m1 = m\<lparr>size_cnt := (if size_cnt m = 0 then 2 ^ 64 - 1 else size_cnt m - 1)\<rparr>"
      define g1 where "g1 = (globalize this m)\<lparr>obj_size :=
          (if obj_size (globalize this m) = 0 then 2 ^ 64 - 1 else obj_size (globalize this m) - 1)\<rparr>"
      define s1 where "s1 = s(this \<mapsto> g1)"
      have g1: "g1 = globalize this m1" by (simp add: g1_def m1_def globalize_def)
      have s1: "s1 this = Some (globalize this m1)" by (simp add: s1_def g1)
      have b1: "?b < length (table m1)" "i < length (table m1 ! ?b)" using b i by (simp_all add: m1_def)
      define rest where "rest = (case next_it (elements m1) (table m1 ! ?b ! i) of
                  Inl e \<Rightarrow> Inl e
                | Inr jt \<Rightarrow>
                    (case next_it (elements m1) jt of
                       Inl e \<Rightarrow> Inl e
                     | Inr nj \<Rightarrow>
                         (case erase_relink m1 ?b i nj of
                            Inl e \<Rightarrow> Inl e
                          | Inr m2 \<Rightarrow> erase_unlink m2 ?b i)))"
      define grest where "grest = (case mem_next s1 (obj_table g1 ! ?b ! i) of
                       Inl e \<Rightarrow> Inl e
                     | Inr jt \<Rightarrow>
                         (case mem_next s1 jt of
                            Inl e \<Rightarrow> Inl e
                          | Inr nj \<Rightarrow>
                              (case obj_erase_relink s1 this g1 ?b i nj of
                                 Inl e \<Rightarrow> Inl e
                               | Inr m2 \<Rightarrow> obj_erase_unlink s this m2 ?b i)))"
      have loc: "erase m key = rest"
        using fp False unfolding erase_steps rest_def m1_def Let_def by simp
      have glob: "obj_erase s this key = grest"
        using fp False b assms unfolding obj_erase_steps grest_def s1_def g1_def Let_def
        by (simp add: find_prev_sim cong: sum.case_cong)
      have "grest = lift_map s this rest"
      proof (cases "next_it (elements m1) (table m1 ! ?b ! i)")
        case (Inl e)
        with b1 s1 show ?thesis by (simp add: grest_def rest_def g1 mem_next_sim lift_map_def)
      next
        case jt: (Inr jt)
        show ?thesis
        proof (cases "next_it (elements m1) jt")
          case (Inl e)
          with jt b1 s1 show ?thesis by (simp add: grest_def rest_def g1 mem_next_sim lift_map_def)
        next
          case nj: (Inr nj)
          show ?thesis
          proof (cases "erase_relink m1 ?b i nj")
            case (Inl e)
            with nj jt b1 s1 erase_relink_sim[where ?s1.0=s1 and this=this and ?m1.0=m1 and b="?b" and i=i and nj=nj, OF s1 b1]
            show ?thesis by (simp add: grest_def rest_def g1 mem_next_sim lift_map_def)
          next
            case (Inr m2)
            from erase_relink_shape[OF Inr] b1 have b2: "?b < length (table m2)" "i < length (table m2 ! ?b)"
              by simp_all
            from Inr nj jt b1 s1 erase_relink_sim[where ?s1.0=s1 and this=this and ?m1.0=m1 and b="?b" and i=i and nj=nj, OF s1 b1]
              erase_unlink_sim[OF b2, of s this]
            show ?thesis by (simp add: grest_def rest_def g1 mem_next_sim)
          qed
        qed
      qed
      with loc glob show ?thesis by simp
    qed
  qed
qed

lemma invar_no_End:
  assumes "invar m" "ms \<in> set (table m)"
  shows "End \<notin> set ms"
proof
  assume e: "End \<in> set ms"
  from assms(2) obtain b where b: "b < length (table m)" "table m ! b = ms"
    by (auto simp: in_set_conv_nth)
  from assms(1) have "placed (bucket_of m) (elements m) (table m)" by (simp add: invar_def)
  from placed_set[OF this b(1)] e b(2) obtain x where "(End, x) \<in> set (links BeforeBegin (elements m))"
    by auto
  from links_fst_subset[OF this] show False by auto
qed

lemma owned_globalize: "invar m \<Longrightarrow> owned ob (globalize ob m)"
  by (auto simp: owned_def dest: invar_no_End)

lemma obj_invar_globalize: "invar m \<Longrightarrow> obj_invar ob (globalize ob m)"
  by (simp add: obj_invar_def owned_globalize)

lemma obj_invarD:
  assumes "obj_invar ob g"
  shows "g = globalize ob (localize g)" "invar (localize g)"
  using assms by (simp_all add: obj_invar_def globalize_localize)

lemma obj_find_local:
  assumes "s ob = Some g" "s' ob = Some g" "obj_invar ob g"
  shows "obj_find s' ob k = obj_find s ob k"
proof -
  from obj_invarD(1)[OF assms(3)] assms(1,2)
  have "s ob = Some (globalize ob (localize g))" "s' ob = Some (globalize ob (localize g))"
    by simp_all
  then show ?thesis by (simp add: find_sim)
qed

lemma assign_loop_returns:
  assumes "this \<noteq> other" "distinct (map fst (obj_elements src))"
  shows "s other = Some src \<Longrightarrow> obj_elements src = pre @ rest \<Longrightarrow>
    s this = Some (globalize this m) \<Longrightarrow> invar m \<Longrightarrow>
    \<exists>m'. obj_assign_loop s this (case rest of [] \<Rightarrow> EndIt | x # xs \<Rightarrow> NodeOf other (fst x))
            = Some (Inr (s(this \<mapsto> globalize this m'))) \<and>
         insert_all (map snd rest) m = Inr m'"
proof (induction rest arbitrary: s m pre)
  case Nil
  from Nil.prems(3) have e: "s(this \<mapsto> globalize this m) = s" by (rule fun_upd_idem)
  have "obj_assign_loop s this EndIt = Some (Inr (s(this \<mapsto> globalize this m)))"
    by (simp add: obj_assign_loop.simps e)
  then show ?case by (intro exI[of _ m]) (simp add: fun_upd_def)
next
  case (Cons x rest)
  let ?it = "NodeOf other (fst x)"
  from Cons.prems(2) have "(fst x, snd x) \<in> set (obj_elements src)" by simp
  with assms(2) have "map_of (obj_elements src) (fst x) = Some (snd x)"
    by (simp only: map_of_eq_Some_iff)
  with Cons.prems(1) have d: "mem_deref s ?it = Inr (snd x)"
    by (simp add: mem_deref_def deref_def)
  from insert_total[OF Cons.prems(4), of "snd x"] obtain m1 where m1:
    "insert_hm m (snd x) = Inr m1" "invar m1" by blast
  define s1 where "s1 = s(this \<mapsto> globalize this m1)"
  from insert_sim[where s=s and this=this and m=m, OF Cons.prems(3), of "snd x"] m1(1)
  have ins: "obj_insert s this (snd x) = Inr s1" by (simp add: lift_map_def s1_def)
  from assms(1) Cons.prems(1) have s1o: "s1 other = Some src" by (simp add: s1_def)
  have s1t: "s1 this = Some (globalize this m1)" by (simp add: s1_def)
  from assms(2) Cons.prems(2) have "tail_after (Node (fst x)) (obj_elements src) = Some rest"
    by (simp add: tail_after_split)
  with s1o have nx: "mem_next s1 ?it = Inr (case rest of [] \<Rightarrow> EndIt | y # ys \<Rightarrow> NodeOf other (fst y))"
    by (simp add: mem_next_def next_it_def split: list.splits)
  from Cons.prems(2) have "obj_elements src = (pre @ [x]) @ rest" by simp
  from Cons.IH[OF s1o this s1t m1(2)] obtain m' where m':
    "obj_assign_loop s1 this (case rest of [] \<Rightarrow> EndIt | y # ys \<Rightarrow> NodeOf other (fst y))
       = Some (Inr (s1(this \<mapsto> globalize this m')))"
    "insert_all (map snd rest) m1 = Inr m'" by blast
  have "obj_assign_loop s this ?it = Some (Inr (s(this \<mapsto> globalize this m')))"
    using d ins nx m'(1) by (subst obj_assign_loop.simps) (simp add: s1_def)
  moreover from m1(1) m'(2) have "insert_all (map snd (x # rest)) m = Inr m'" by simp
  ultimately show ?case by (intro exI[of _ m']) (simp add: fun_upd_def)
qed

lemma obj_assign_copy:
  assumes "s a = Some ga" "s b = Some gb" "obj_invar a ga" "obj_invar b gb" "a \<noteq> b"
  shows "\<exists>m'. obj_assign s b a = Some (Inr (s(b \<mapsto> globalize b m'))) \<and>
           copy_from (localize gb) (localize ga) = Inr m'"
proof -
  note gb = obj_invarD[OF assms(4)]
  note ga = obj_invarD[OF assms(3)]
  from clear_invar[OF gb(2)] obtain mc where mc: "clear (localize gb) = Inr mc" "invar mc" by blast
  define s1 where "s1 = s(b \<mapsto> globalize b mc)"
  from assms(2) gb(1) have "s b = Some (globalize b (localize gb))" by simp
  from clear_sim[where s=s and this=b and m="localize gb", OF this] mc(1)
  have cl: "obj_clear s b = Inr s1" by (simp add: lift_map_def s1_def)
  from assms(1,5) have s1a: "s1 a = Some ga" by (simp add: s1_def)
  have s1b: "s1 b = Some (globalize b mc)" by (simp add: s1_def)
  from ga(2) have d: "distinct (map fst (obj_elements ga))" by (simp add: invar_def localize_def)
  from assms(5) have ne: "b \<noteq> a" by simp
  from assign_loop_returns[OF ne d s1a _ s1b mc(2), of "[]" "obj_elements ga"]
  obtain m' where m': "obj_assign_loop s1 b (obj_begin a ga) = Some (Inr (s1(b \<mapsto> globalize b m')))"
    "insert_all (map snd (obj_elements ga)) mc = Inr m'"
    by (auto simp: obj_begin_def)
  from ne cl s1a m'(1) have "obj_assign s b a = Some (Inr (s(b \<mapsto> globalize b m')))"
    by (simp add: obj_assign_def s1_def)
  moreover from mc(1) m'(2) have "copy_from (localize gb) (localize ga) = Inr m'"
    by (simp add: copy_from_def iterate_def localize_def)
  ultimately show ?thesis by blast
qed

lemma obj_insert_total:
  assumes "s ob = Some g" "obj_invar ob g"
  shows "\<exists>g'. obj_insert s ob p = Inr (s(ob \<mapsto> g')) \<and> obj_invar ob g'"
proof -
  note g = obj_invarD[OF assms(2)]
  from insert_total[OF g(2), of p] obtain m' where m': "insert_hm (localize g) p = Inr m'" "invar m'"
    by blast
  from assms(1) g(1) have "s ob = Some (globalize ob (localize g))" by simp
  from insert_sim[where s=s and this=ob and m="localize g", OF this, of p] m'(1)
  have "obj_insert s ob p = Inr (s(ob \<mapsto> globalize ob m'))" by (simp add: lift_map_def)
  with obj_invar_globalize[OF m'(2)] show ?thesis by blast
qed

lemma obj_erase_total:
  assumes "s ob = Some g" "obj_invar ob g"
  shows "\<exists>g'. obj_erase s ob k = Inr (s(ob \<mapsto> g')) \<and> obj_invar ob g'"
proof -
  note g = obj_invarD[OF assms(2)]
  from erase_total[OF g(2), of k] obtain m' where m': "erase (localize g) k = Inr m'" "invar m'"
    by blast
  from assms(1) g(1) have "s ob = Some (globalize ob (localize g))" by simp
  from erase_sim[where s=s and this=ob and m="localize g", OF this, of k] m'(1)
  have "obj_erase s ob k = Inr (s(ob \<mapsto> globalize ob m'))" by (simp add: lift_map_def)
  with obj_invar_globalize[OF m'(2)] show ?thesis by blast
qed

text \<open>
  Claim C9.  Copy-assignment \<open>b = a\<close> of two different map objects succeeds; afterwards \<open>b\<close> has
  the pairs of \<open>a\<close> and the size of \<open>a\<close>, \<open>a\<close> is as it was, and every iterator stored in \<open>b\<close>
  points into the list of \<open>b\<close>: none is shared with \<open>a\<close>.  The two objects are independent:
  \<open>insert\<close> and \<open>erase\<close> on \<open>b\<close> succeed and leave \<open>a\<close> and what \<open>find\<close> returns on \<open>a\<close> as they
  were, and \<open>insert\<close> and \<open>erase\<close> on \<open>a\<close> succeed and leave \<open>b\<close> and what \<open>find\<close> returns on \<open>b\<close>
  as they were.  Self-assignment \<open>a = a\<close> changes nothing.
\<close>

theorem copy_assignment_independent:
  assumes "s a = Some ga" "s b = Some gb" "obj_invar a ga" "obj_invar b gb" "a \<noteq> b"
  shows "obj_assign s a a = Some (Inr s) \<and>
         (\<exists>s' gb'. obj_assign s b a = Some (Inr s') \<and> s' b = Some gb' \<and> s' a = Some ga \<and>
            obj_invar b gb' \<and>
            set (map snd (obj_elements gb')) = set (map snd (obj_elements ga)) \<and>
            obj_size gb' = obj_size ga \<and>
            (\<forall>p. \<exists>s''. obj_insert s' b p = Inr s'' \<and> s'' a = Some ga \<and>
                   (\<forall>k. obj_find s'' a k = obj_find s a k)) \<and>
            (\<forall>k. \<exists>s''. obj_erase s' b k = Inr s'' \<and> s'' a = Some ga \<and>
                   (\<forall>k'. obj_find s'' a k' = obj_find s a k')) \<and>
            (\<forall>p. \<exists>s''. obj_insert s' a p = Inr s'' \<and> s'' b = Some gb' \<and>
                   (\<forall>k. obj_find s'' b k = obj_find s' b k)) \<and>
            (\<forall>k. \<exists>s''. obj_erase s' a k = Inr s'' \<and> s'' b = Some gb' \<and>
                   (\<forall>k'. obj_find s'' b k' = obj_find s' b k')))"
proof
  show "obj_assign s a a = Some (Inr s)" by (simp add: obj_assign_def)
next
  from obj_assign_copy[OF assms] obtain m' where m': 
    "obj_assign s b a = Some (Inr (s(b \<mapsto> globalize b m')))"
    "copy_from (localize gb) (localize ga) = Inr m'" by blast
  from copy_from_invar[OF obj_invarD(2)[OF assms(4)] obj_invarD(2)[OF assms(3)]] m'(2)
  have cp: "invar m'" "iterate m' = rev (iterate (localize ga))"
    "size_cnt m' = size_cnt (localize ga)" by auto
  define gb' where "gb' = globalize b m'"
  define s' where "s' = s(b \<mapsto> gb')"
  have as: "obj_assign s b a = Some (Inr s')" using m'(1) by (simp add: s'_def gb'_def)
  from assms(1,5) have sa: "s' a = Some ga" and sb: "s' b = Some gb'" by (simp_all add: s'_def)
  from cp(1) have ib: "obj_invar b gb'" unfolding gb'_def by (rule obj_invar_globalize)
  from cp(2,3) have eq: "set (map snd (obj_elements gb')) = set (map snd (obj_elements ga))"
    "obj_size gb' = obj_size ga"
    by (simp_all add: gb'_def iterate_def localize_def flip: set_map)
  have on_b: "\<exists>s''. f s' b = Inr s'' \<and> s'' a = Some ga \<and> (\<forall>k. obj_find s'' a k = obj_find s a k)"
    if "\<exists>g'. f s' b = Inr (s'(b \<mapsto> g'))" for f :: "('a, 'b) memory \<Rightarrow> nat \<Rightarrow> error + ('a, 'b) memory"
  proof -
    from that obtain g' where f: "f s' b = Inr (s'(b \<mapsto> g'))" by blast
    from sa assms(5) have a': "(s'(b \<mapsto> g')) a = Some ga" by simp
    from obj_find_local[where s=s and s'="s'(b \<mapsto> g')" and ob=a and g=ga, OF assms(1) a' assms(3)] f a'
    show ?thesis by simp
  qed
  have on_a: "\<exists>s''. f s' a = Inr s'' \<and> s'' b = Some gb' \<and> (\<forall>k. obj_find s'' b k = obj_find s' b k)"
    if "\<exists>g'. f s' a = Inr (s'(a \<mapsto> g'))" for f :: "('a, 'b) memory \<Rightarrow> nat \<Rightarrow> error + ('a, 'b) memory"
  proof -
    from that obtain g' where f: "f s' a = Inr (s'(a \<mapsto> g'))" by blast
    from sb assms(5) have b': "(s'(a \<mapsto> g')) b = Some gb'" by simp
    from obj_find_local[where s=s' and s'="s'(a \<mapsto> g')" and ob=b and g=gb', OF sb b' ib] f b'
    show ?thesis by simp
  qed
  have "\<exists>s''. obj_insert s' b p = Inr s'' \<and> s'' a = Some ga \<and>
      (\<forall>k. obj_find s'' a k = obj_find s a k)" for p
    using on_b[of "\<lambda>s ob. obj_insert s ob p"] obj_insert_total[where s=s' and ob=b and g=gb' and p=p, OF sb ib] by blast
  moreover have "\<exists>s''. obj_erase s' b k = Inr s'' \<and> s'' a = Some ga \<and>
      (\<forall>k'. obj_find s'' a k' = obj_find s a k')" for k
    using on_b[of "\<lambda>s ob. obj_erase s ob k"] obj_erase_total[where s=s' and ob=b and g=gb' and k=k, OF sb ib] by blast
  moreover have "\<exists>s''. obj_insert s' a p = Inr s'' \<and> s'' b = Some gb' \<and>
      (\<forall>k. obj_find s'' b k = obj_find s' b k)" for p
    using on_a[of "\<lambda>s ob. obj_insert s ob p"] obj_insert_total[where s=s' and ob=a and g=ga and p=p, OF sa assms(3)] by blast
  moreover have "\<exists>s''. obj_erase s' a k = Inr s'' \<and> s'' b = Some gb' \<and>
      (\<forall>k'. obj_find s'' b k' = obj_find s' b k')" for k
    using on_a[of "\<lambda>s ob. obj_erase s ob k"] obj_erase_total[where s=s' and ob=a and g=ga and k=k, OF sa assms(3)] by blast
  ultimately show "\<exists>s' gb'. obj_assign s b a = Some (Inr s') \<and> s' b = Some gb' \<and> s' a = Some ga \<and>
            obj_invar b gb' \<and>
            set (map snd (obj_elements gb')) = set (map snd (obj_elements ga)) \<and>
            obj_size gb' = obj_size ga \<and>
            (\<forall>p. \<exists>s''. obj_insert s' b p = Inr s'' \<and> s'' a = Some ga \<and>
                   (\<forall>k. obj_find s'' a k = obj_find s a k)) \<and>
            (\<forall>k. \<exists>s''. obj_erase s' b k = Inr s'' \<and> s'' a = Some ga \<and>
                   (\<forall>k'. obj_find s'' a k' = obj_find s a k')) \<and>
            (\<forall>p. \<exists>s''. obj_insert s' a p = Inr s'' \<and> s'' b = Some gb' \<and>
                   (\<forall>k. obj_find s'' b k = obj_find s' b k)) \<and>
            (\<forall>k. \<exists>s''. obj_erase s' a k = Inr s'' \<and> s'' b = Some gb' \<and>
                   (\<forall>k'. obj_find s'' b k' = obj_find s' b k'))"
    using as sa sb ib eq by blast
qed

theorem copy_assignment_independent_witness:
  "example_memory 0 = Some (globalize 0 example_map) \<and>
   example_memory 1 = Some (globalize 1 other_map) \<and>
   obj_invar 0 (globalize 0 example_map) \<and> obj_invar 1 (globalize 1 other_map) \<and>
   (0::nat) \<noteq> 1 \<and>
   obj_assign example_memory 0 0 = Some (Inr example_memory) \<and>
   (\<exists>s' gb'. obj_assign example_memory 1 0 = Some (Inr s') \<and> s' 1 = Some gb' \<and>
      s' 0 = Some (globalize 0 example_map) \<and> obj_invar 1 gb' \<and>
      set (map snd (obj_elements gb')) = set (map snd (obj_elements (globalize 0 example_map))) \<and>
      obj_size gb' = obj_size (globalize 0 example_map) \<and>
      (\<exists>s''. obj_insert s' 1 (7, 70) = Inr s'' \<and> s'' 0 = Some (globalize 0 example_map)) \<and>
      (\<exists>s''. obj_erase s' 1 2 = Inr s'' \<and> s'' 0 = Some (globalize 0 example_map)) \<and>
      (\<exists>s''. obj_insert s' 0 (7, 70) = Inr s'' \<and> s'' 1 = Some gb') \<and>
      (\<exists>s''. obj_erase s' 0 2 = Inr s'' \<and> s'' 1 = Some gb'))"
proof -
  have h0: "example_memory 0 = Some (globalize 0 example_map)" by (simp add: example_memory_def)
  have h1: "example_memory 1 = Some (globalize 1 other_map)" by (simp add: example_memory_def)
  have h2: "(0::nat) \<noteq> 1" by simp
  note i0 = obj_invar_globalize[OF example_map_invar, of 0]
  note i1 = obj_invar_globalize[OF other_map_invar, of 1]
  from copy_assignment_independent[OF h0 h1 i0 i1 h2] h0 h1 i0 i1
  show ?thesis by (simp only: h2 not_False_eq_True simp_thms) blast
qed

text \<open>
  What the independence rests on.  Were the table of \<open>example_map\<close> copied member by member
  into the object at address 1, the copy would hold iterators into the list of the object
  at address 0: it does not own them, and \<open>erase\<close> called on the copy is undefined.
\<close>

lemma memberwise_copy_shares:
  "\<not> owned 1 (globalize 0 example_map)"
  "obj_erase (example_memory(1 \<mapsto> globalize 0 example_map)) 1 2 = Inl Undefined"
proof -
  show "\<not> owned 1 (globalize 0 example_map)" by code_simp
  have "case obj_erase (example_memory(1 \<mapsto> globalize 0 example_map)) 1 2 of
          Inl e \<Rightarrow> e = Undefined | Inr s \<Rightarrow> False" by code_simp
  then show "obj_erase (example_memory(1 \<mapsto> globalize 0 example_map)) 1 2 = Inl Undefined"
    by (simp split: sum.splits)
qed

end
